theory Spec2Isabelle
  imports Main
begin

section \<open>The IMAP client transport core of browserbox (\<^verbatim>\<open>browserbox-imap.js\<close>)\<close>

text \<open>
  The development embeds the transport core of the browserbox IMAP client: the framing
  reader that cuts the incoming byte stream into response units, the post-processing of
  parsed responses, the router that correlates responses with the command in flight, and
  the command queue with its sender. The strings of the wire are lists of 8-bit characters,
  as the binary strings the client builds from the socket's typed arrays; the strings that
  the client changes the case of are lists of code units. The opening, the upgrade and
  the closing of the socket and the compression of the stream are outside the development;
  the parser and the compiler of the IMAP grammar are parameters.
\<close>

subsection \<open>Characters, digits and the terminator pattern\<close>

text \<open>
  \<^verbatim>\<open>COMMAND_REGEX = /(\{(\d+)(\+)?\})?\r?\n/\<close> and \<^verbatim>\<open>EOL = '\r\n'\<close>.
  \<open>match_here\<close> is the pattern tried at the head of a string, with the regular
  expression's priorities (the marker group first, greedy digits and carriage return);
  \<open>regex_match\<close> is \<^verbatim>\<open>String.prototype.match\<close>: the leftmost position where the pattern
  matches, as (index, length of the match, the digits of group 2 when the group took part).
  \<open>Number\<close> reads a string of decimal digits; a JavaScript number is exact below
  \<open>2^53\<close>, the model counts with natural numbers.
\<close>

definition CR :: char where "CR = CHR 0x0D"
definition LF :: char where "LF = CHR 0x0A"
definition EOL :: string where "EOL = [CR, LF]"

definition is_digit :: "char \<Rightarrow> bool" where
  "is_digit c = (48 \<le> (of_char c :: nat) \<and> (of_char c :: nat) \<le> 57)"

definition digit_val :: "char \<Rightarrow> nat" where
  "digit_val c = of_char c - 48"

definition Number :: "string \<Rightarrow> nat" where
  "Number ds = foldl (\<lambda>n c. 10 * n + digit_val c) 0 ds"

definition match_eol :: "string \<Rightarrow> nat option" where
  "match_eol s =
     (if take 2 s = [CR, LF] then Some 2
      else if take 1 s = [LF] then Some 1
      else None)"

definition match_literal :: "string \<Rightarrow> (nat \<times> string) option" where
  "match_literal s =
     (let ds = takeWhile is_digit (drop 1 s);
          r = dropWhile is_digit (drop 1 s)
      in if take 1 s = ''{'' \<and> ds \<noteq> [] then
           (if take 2 r = ''+}'' then Some (length ds + 3, ds)
            else if take 1 r = ''}'' then Some (length ds + 2, ds)
            else None)
         else None)"

definition match_here :: "string \<Rightarrow> (nat \<times> string option) option" where
  "match_here s =
     (case match_literal s of
        Some (n, ds) \<Rightarrow>
          (case match_eol (drop n s) of
             Some k \<Rightarrow> Some (n + k, Some ds)
           | None \<Rightarrow> map_option (\<lambda>k. (k, None)) (match_eol s))
      | None \<Rightarrow> map_option (\<lambda>k. (k, None)) (match_eol s))"

fun regex_match :: "string \<Rightarrow> (nat \<times> nat \<times> string option) option" where
  "regex_match [] = None"
| "regex_match (c # cs) =
     (case match_here (c # cs) of
        Some (l, g) \<Rightarrow> Some (0, l, g)
      | None \<Rightarrow> map_option (\<lambda>(i, l, g). (Suc i, l, g)) (regex_match cs))"

lemma take1_eq: "take (Suc 0) s = [a] \<longleftrightarrow> (\<exists>t. s = a # t)"
  by (cases s) auto
lemma take2_eq: "take 2 s = [a, b] \<longleftrightarrow> (\<exists>t. s = a # b # t)"
  by (cases s; cases "tl s") (auto simp: numeral_2_eq_2)
lemma take2_eq': "take (Suc (Suc 0)) s = [a, b] \<longleftrightarrow> (\<exists>t. s = a # b # t)"
  by (cases s; cases "tl s") auto

lemma match_eol_Some_iff:
  "match_eol s = Some k \<longleftrightarrow>
     (k = 2 \<and> (\<exists>t. s = CR # LF # t)) \<or> (k = 1 \<and> (\<exists>t. s = LF # t))"
  by (auto simp: match_eol_def take1_eq take2_eq take2_eq' CR_def LF_def)

lemma match_literal_Some_iff:
  "match_literal s = Some (n, ds) \<longleftrightarrow>
     ds \<noteq> [] \<and> (\<forall>c\<in>set ds. is_digit c) \<and>
     ((n = length ds + 3 \<and> (\<exists>t. s = ''{'' @ ds @ ''+}'' @ t)) \<or>
      (n = length ds + 2 \<and> (\<exists>t. s = ''{'' @ ds @ ''}'' @ t)))"
  (is "?L \<longleftrightarrow> ?R")
proof
  assume L: ?L
  define r where "r = dropWhile is_digit (drop 1 s)"
  define d where "d = takeWhile is_digit (drop 1 s)"
  have split: "drop 1 s = d @ r" by (simp add: d_def r_def)
  from L have hd: "take 1 s = ''{''" and ne: "d \<noteq> []"
    by (auto simp: match_literal_def Let_def d_def split: if_splits)
  from hd obtain t where s: "s = CHR ''{'' # t" by (auto simp: take1_eq)
  with split have t: "t = d @ r" by simp
  have dig: "\<forall>c\<in>set d. is_digit c" unfolding d_def by (auto dest: set_takeWhileD)
  from L have "ds = d" by (auto simp: match_literal_def Let_def d_def split: if_splits)
  moreover from L have "(n = length d + 3 \<and> take 2 r = ''+}'') \<or> (n = length d + 2 \<and> take 1 r = ''}'')"
    by (auto simp: match_literal_def Let_def d_def r_def split: if_splits)
  ultimately show ?R using ne dig s t by (auto simp: take1_eq take2_eq take2_eq')
next
  assume R: ?R
  then have ne: "ds \<noteq> []" and dig: "\<And>c. c \<in> set ds \<Longrightarrow> is_digit c" by auto
  have nd: "\<not> is_digit (CHR ''+'')" "\<not> is_digit (CHR ''}'')" by (simp_all add: is_digit_def)
  from R consider t where "n = length ds + 3" "s = ''{'' @ ds @ ''+}'' @ t"
    | t where "n = length ds + 2" "s = ''{'' @ ds @ ''}'' @ t" by auto
  then show ?L
  proof cases
    case 1
    then have "takeWhile is_digit (drop 1 s) = ds" "dropWhile is_digit (drop 1 s) = ''+}'' @ t"
      using dig nd by (simp_all add: takeWhile_append2 dropWhile_append2)
    then show ?thesis using 1 ne by (simp add: match_literal_def)
  next
    case 2
    then have "takeWhile is_digit (drop 1 s) = ds" "dropWhile is_digit (drop 1 s) = ''}'' @ t"
      using dig nd by (simp_all add: takeWhile_append2 dropWhile_append2)
    then show ?thesis using 2 ne by (simp add: match_literal_def)
  qed
qed

lemma CR_neq_LF [simp]: "CR \<noteq> LF" "LF \<noteq> CR"
  by (simp_all add: CR_def LF_def)

lemma not_digit_ctl [simp]: "\<not> is_digit CR" "\<not> is_digit LF"
  by (simp_all add: CR_def LF_def is_digit_def)

lemma match_literal_no_eol: "match_literal s = Some x \<Longrightarrow> match_eol s = None"
  by (cases x) (auto simp: match_literal_Some_iff match_eol_def CR_def LF_def)

lemma match_here_cases:
  "match_here s = Some (l, g) \<longleftrightarrow>
     (g = None \<and> match_eol s = Some l) \<or>
     (\<exists>n ds k. g = Some ds \<and> match_literal s = Some (n, ds) \<and> match_eol (drop n s) = Some k \<and> l = n + k)"
  by (auto simp: match_here_def match_literal_no_eol split: option.splits)

lemma match_eol_prefix: "match_eol s = Some k \<Longrightarrow> match_eol (take k s @ t) = Some k"
  by (auto simp: match_eol_Some_iff)

lemma match_eol_bounds: "match_eol s = Some k \<Longrightarrow> 0 < k \<and> k \<le> length s \<and> s ! (k - 1) = LF \<and> LF \<notin> set (take (k - 1) s)"
  by (auto simp: match_eol_Some_iff)

lemma match_literal_prefix:
  "match_literal s = Some (n, ds) \<Longrightarrow> match_literal (take n s @ t) = Some (n, ds)"
  by (auto simp: match_literal_Some_iff eval_nat_numeral)

lemma match_literal_bounds:
  "match_literal s = Some (n, ds) \<Longrightarrow> 0 < n \<and> n \<le> length s \<and> LF \<notin> set (take n s)"
proof -
  assume a: "match_literal s = Some (n, ds)"
  then have dig: "\<forall>c\<in>set ds. is_digit c" by (simp add: match_literal_Some_iff)
  then have "LF \<notin> set ds" using not_digit_ctl by blast
  moreover have "LF \<noteq> CHR ''{''" "LF \<noteq> CHR ''+''" "LF \<noteq> CHR ''}''" by (simp_all add: LF_def)
  ultimately show ?thesis using a by (auto simp: match_literal_Some_iff eval_nat_numeral)
qed

lemma match_here_prefix:
  assumes "match_here s = Some (l, g)"
  shows "match_here (take l s @ t) = Some (l, g)"
proof -
  from assms consider "g = None" "match_eol s = Some l"
    | n ds k where "g = Some ds" "match_literal s = Some (n, ds)" "match_eol (drop n s) = Some k" "l = n + k"
    by (auto simp: match_here_cases)
  then show ?thesis
  proof cases
    case 1
    then show ?thesis by (simp add: match_here_cases match_eol_prefix)
  next
    case 2
    from 2(2) have nb: "n \<le> length s" by (simp add: match_literal_bounds)
    from 2(3) have kb: "k \<le> length (drop n s)" using match_eol_bounds[of "drop n s" k] by simp
    have a: "take l s = take n s @ take k (drop n s)"
      using 2(4) by (simp add: take_add)
    have e: "take l s @ t = take n s @ (take k (drop n s) @ t)"
      using a by simp
    have ml: "match_literal (take n s @ (take k (drop n s) @ t)) = Some (n, ds)"
      using 2(2) by (rule match_literal_prefix)
    have "length (take n s) = n" using nb by simp
    then have d: "drop n (take n s @ (take k (drop n s) @ t)) = take k (drop n s) @ t"
      by (metis append_eq_conv_conj)
    have me: "match_eol (take k (drop n s) @ t) = Some k"
      using 2(3) by (rule match_eol_prefix)
    show ?thesis unfolding e match_here_cases using 2(1,4) ml d me by auto
  qed
qed

lemma match_here_bounds:
  assumes "match_here s = Some (l, g)"
  shows "0 < l \<and> l \<le> length s \<and> s ! (l - 1) = LF \<and> LF \<notin> set (take (l - 1) s)"
proof -
  from assms consider "g = None" "match_eol s = Some l"
    | n ds k where "g = Some ds" "match_literal s = Some (n, ds)" "match_eol (drop n s) = Some k" "l = n + k"
    by (auto simp: match_here_cases)
  then show ?thesis
  proof cases
    case 1
    then show ?thesis using match_eol_bounds[of s l] by simp
  next
    case 2
    note lb = match_literal_bounds[OF 2(2)]
    note eb = match_eol_bounds[OF 2(3)]
    have t: "take (l - 1) s = take n s @ take (k - 1) (drop n s)"
      using 2(4) eb by (metis Nat.add_diff_assoc Suc_leI One_nat_def take_add)
    have "s ! (l - 1) = drop n s ! (k - 1)"
      using 2(4) eb lb by (simp add: add.commute)
    then show ?thesis using lb eb t 2(4) by auto
  qed
qed

lemma match_here_append:
  "match_here b = Some m \<Longrightarrow> match_here (b @ e) = Some m"
proof -
  assume a: "match_here b = Some m"
  obtain l g where m: "m = (l, g)" by (cases m)
  from a m have "l \<le> length b" using match_here_bounds[of b l g] by simp
  then have "take l b @ (drop l b @ e) = b @ e" by simp
  with match_here_prefix[of b l g "drop l b @ e"] a m show ?thesis by simp
qed

lemma match_here_restrict:
  assumes "match_here (b @ e) = Some (l, g)" "l \<le> length b"
  shows "match_here b = Some (l, g)"
proof -
  have "take l (b @ e) @ drop l b = b" using assms(2) by simp
  with match_here_prefix[OF assms(1), of "drop l b"] show ?thesis by simp
qed

lemma match_here_within:
  assumes "match_here (b @ e) = Some (l, g)" "LF \<in> set b"
  shows "l \<le> length b"
proof (rule ccontr)
  assume "\<not> l \<le> length b"
  then have "length b \<le> l - 1" by simp
  then have "set b \<subseteq> set (take (l - 1) (b @ e))" by simp
  with match_here_bounds[OF assms(1)] assms(2) show False by blast
qed

lemma regex_match_LF: "regex_match s = Some m \<Longrightarrow> LF \<in> set s"
proof (induction s arbitrary: m)
  case Nil
  then show ?case by simp
next
  case (Cons c cs)
  show ?case
  proof (cases "match_here (c # cs)")
    case None
    with Cons show ?thesis by (auto split: option.splits)
  next
    case (Some a)
    obtain l g where "a = (l, g)" by (cases a)
    with Some match_here_bounds[of "c # cs" l g] have "0 < l" "l \<le> length (c # cs)" "(c # cs) ! (l - 1) = LF"
      by simp_all
    then show ?thesis by (metis Suc_pred' less_Suc_eq_le nth_mem not_less)
  qed
qed

lemma regex_match_append:
  "regex_match b = Some m \<Longrightarrow> regex_match (b @ e) = Some m"
proof (induction b arbitrary: m)
  case Nil
  then show ?case by simp
next
  case (Cons c cs)
  show ?case
  proof (cases "match_here (c # cs)")
    case (Some a)
    with Cons.prems match_here_append[OF Some, of e] show ?thesis
      by (simp split: prod.splits)
  next
    case None
    with Cons.prems obtain m' where m': "regex_match cs = Some m'"
      by (auto split: option.splits)
    then have "LF \<in> set (c # cs)" using regex_match_LF by fastforce
    have "match_here ((c # cs) @ e) = None"
    proof (rule ccontr)
      assume "match_here ((c # cs) @ e) \<noteq> None"
      then obtain l g where lg: "match_here ((c # cs) @ e) = Some (l, g)" by auto
      from match_here_within[OF lg \<open>LF \<in> set (c # cs)\<close>] match_here_restrict[OF lg] None
      show False by simp
    qed
    with None Cons.prems Cons.IH[OF m'] m' show ?thesis by simp
  qed
qed

lemma regex_match_bounds:
  "regex_match s = Some (i, l, g) \<Longrightarrow> 0 < l \<and> i + l \<le> length s"
proof (induction s arbitrary: i)
  case Nil
  then show ?case by simp
next
  case (Cons c cs)
  show ?case
  proof (cases "match_here (c # cs)")
    case None
    with Cons.prems obtain i' where "regex_match cs = Some (i', l, g)" "i = Suc i'"
      by (auto split: option.splits)
    with Cons.IH[of i'] show ?thesis by simp
  next
    case (Some a)
    with Cons.prems have "match_here (c # cs) = Some (l, g)" "i = 0"
      by (auto split: prod.splits)
    with match_here_bounds[of "c # cs" l g] show ?thesis by simp
  qed
qed

lemma regex_match_exists: "LF \<in> set s \<Longrightarrow> regex_match s \<noteq> None"
proof (induction s)
  case Nil
  then show ?case by simp
next
  case (Cons c cs)
  show ?case
  proof (cases "c = LF")
    case True
    then have "match_eol (c # cs) = Some 1" by (simp add: match_eol_def)
    moreover have "match_literal (c # cs) = None" using True by (simp add: match_literal_def LF_def)
    ultimately have "match_here (c # cs) = Some (1, None)" by (simp add: match_here_def)
    then show ?thesis by simp
  next
    case False
    with Cons have "regex_match cs \<noteq> None" by simp
    then show ?thesis by (auto split: option.splits)
  qed
qed

subsection \<open>The framing reader\<close>

text \<open>
  The fields \<^verbatim>\<open>_incomingBuffer\<close>, \<^verbatim>\<open>_command\<close> and \<^verbatim>\<open>_literalRemaining\<close> of the client.
  \<open>iterateIncomingBuffer\<close> is the body of the generator \<^verbatim>\<open>_iterateIncomingBuffer\<close>
  run from the head of its loop to the next \<^verbatim>\<open>yield\<close> (the yielded unit, with the
  state at that moment) or to its return (\<open>None\<close>). \<^verbatim>\<open>substr(0, n)\<close> is \<open>take n\<close> and
  \<^verbatim>\<open>substr(n)\<close> is \<open>drop n\<close>. When the generator is resumed after a yield it clears
  \<^verbatim>\<open>_command\<close> and loops; \<open>drain\<close> is the generator consumed to its end, as the
  \<^verbatim>\<open>for ... of\<close> loop of \<^verbatim>\<open>_parseIncomingCommands\<close> does, collecting the units.
  \<open>receive\<close> is \<^verbatim>\<open>_onData\<close> seen from the reader: the chunk is appended to the buffer
  and the generator is drained.
\<close>

record reader =
  incomingBuffer :: string
  command :: string
  literalRemaining :: nat

function iterateIncomingBuffer :: "reader \<Rightarrow> string option \<times> reader" where
  "iterateIncomingBuffer r =
     (case regex_match (incomingBuffer r) of
        None \<Rightarrow> (None, r)
      | Some (index, len, digits) \<Rightarrow>
          if literalRemaining r \<noteq> 0 \<and> literalRemaining r > length (incomingBuffer r) then (None, r)
          else if literalRemaining r \<noteq> 0 then
            iterateIncomingBuffer
              \<lparr>incomingBuffer = drop (literalRemaining r) (incomingBuffer r),
                command = command r @ take (literalRemaining r) (incomingBuffer r),
                literalRemaining = 0\<rparr>
          else (case digits of
            Some ds \<Rightarrow>
              iterateIncomingBuffer
                \<lparr>incomingBuffer = drop (index + len) (incomingBuffer r),
                  command = command r @ take (index + len) (incomingBuffer r),
                  literalRemaining = Number ds\<rparr>
          | None \<Rightarrow>
              (Some (command r @ take index (incomingBuffer r)),
               \<lparr>incomingBuffer = drop (index + len) (incomingBuffer r),
                 command = command r @ take index (incomingBuffer r),
                 literalRemaining = literalRemaining r\<rparr>)))"
  by pat_completeness auto
termination
proof (relation "measure (\<lambda>r. length (incomingBuffer r))")
  show "wf (measure (\<lambda>r. length (incomingBuffer r)))" by simp
next
  fix r :: reader and x2 index y len digits
  assume "regex_match (incomingBuffer r) = Some x2" "\<not> (literalRemaining r \<noteq> 0 \<and> length (incomingBuffer r) < literalRemaining r)"
    "literalRemaining r \<noteq> 0"
  then show "(\<lparr>incomingBuffer = drop (literalRemaining r) (incomingBuffer r),
                command = command r @ take (literalRemaining r) (incomingBuffer r),
                literalRemaining = 0\<rparr>, r) \<in> measure (\<lambda>r. length (incomingBuffer r))"
    by auto
next
  fix r :: reader and x2 index y len digits ds
  assume "regex_match (incomingBuffer r) = Some x2" "(index, y) = x2" "(len, digits) = y"
  then have "regex_match (incomingBuffer r) = Some (index, len, digits)" by simp
  from regex_match_bounds[OF this]
  show "(\<lparr>incomingBuffer = drop (index + len) (incomingBuffer r),
                  command = command r @ take (index + len) (incomingBuffer r),
                  literalRemaining = Number ds\<rparr>, r) \<in> measure (\<lambda>r. length (incomingBuffer r))"
    by auto
qed

declare iterateIncomingBuffer.simps [simp del]

lemma iterate_nomatch:
  "regex_match (incomingBuffer r) = None \<Longrightarrow> iterateIncomingBuffer r = (None, r)"
  by (simp add: iterateIncomingBuffer.simps)

lemma iterate_wait:
  "literalRemaining r > length (incomingBuffer r) \<Longrightarrow> iterateIncomingBuffer r = (None, r)"
  by (simp add: iterateIncomingBuffer.simps split: option.splits)

lemma iterate_literal:
  "regex_match (incomingBuffer r) = Some m \<Longrightarrow> literalRemaining r \<noteq> 0 \<Longrightarrow>
   literalRemaining r \<le> length (incomingBuffer r) \<Longrightarrow>
   iterateIncomingBuffer r = iterateIncomingBuffer
              \<lparr>incomingBuffer = drop (literalRemaining r) (incomingBuffer r),
                command = command r @ take (literalRemaining r) (incomingBuffer r),
                literalRemaining = 0\<rparr>"
  by (subst iterateIncomingBuffer.simps) (simp split: prod.splits)

lemma iterate_marker:
  "regex_match (incomingBuffer r) = Some (index, len, Some ds) \<Longrightarrow> literalRemaining r = 0 \<Longrightarrow>
   iterateIncomingBuffer r = iterateIncomingBuffer
                \<lparr>incomingBuffer = drop (index + len) (incomingBuffer r),
                  command = command r @ take (index + len) (incomingBuffer r),
                  literalRemaining = Number ds\<rparr>"
  by (subst iterateIncomingBuffer.simps) simp

lemma iterate_line:
  "regex_match (incomingBuffer r) = Some (index, len, None) \<Longrightarrow> literalRemaining r = 0 \<Longrightarrow>
   iterateIncomingBuffer r =
              (Some (command r @ take index (incomingBuffer r)),
               \<lparr>incomingBuffer = drop (index + len) (incomingBuffer r),
                 command = command r @ take index (incomingBuffer r),
                 literalRemaining = literalRemaining r\<rparr>)"
  by (subst iterateIncomingBuffer.simps) simp

text \<open>Case analysis on one pass of the loop.\<close>
lemma iterate_cases:
  obtains (nomatch) "regex_match (incomingBuffer r) = None"
  | (wait) "literalRemaining r > length (incomingBuffer r)"
  | (literal) m where "regex_match (incomingBuffer r) = Some m" "literalRemaining r \<noteq> 0"
      "literalRemaining r \<le> length (incomingBuffer r)"
  | (marker) index len ds where "regex_match (incomingBuffer r) = Some (index, len, Some ds)"
      "literalRemaining r = 0"
  | (line) index len where "regex_match (incomingBuffer r) = Some (index, len, None)"
      "literalRemaining r = 0"
proof (cases "regex_match (incomingBuffer r)")
  case None
  then show ?thesis by (rule nomatch)
next
  case (Some m)
  obtain index len digits where m: "m = (index, len, digits)" by (cases m)
  show ?thesis
  proof (cases "literalRemaining r = 0")
    case True
    with Some m marker line show ?thesis by (cases digits) auto
  next
    case False
    with Some wait literal show ?thesis by (cases "literalRemaining r > length (incomingBuffer r)") auto
  qed
qed

lemma iterate_shrinks:
  "iterateIncomingBuffer r = (Some u, r') \<Longrightarrow> length (incomingBuffer r') < length (incomingBuffer r)"
proof (induction "length (incomingBuffer r)" arbitrary: r rule: less_induct)
  case less
  show ?case
  proof (cases r rule: iterate_cases)
    case nomatch
    with less.prems show ?thesis by (simp add: iterate_nomatch)
  next
    case wait
    with less.prems show ?thesis by (simp add: iterate_wait)
  next
    case (literal m)
    let ?r = "\<lparr>incomingBuffer = drop (literalRemaining r) (incomingBuffer r),
                command = command r @ take (literalRemaining r) (incomingBuffer r),
                literalRemaining = 0\<rparr>"
    from literal have "length (incomingBuffer ?r) < length (incomingBuffer r)" by simp
    moreover from literal less.prems have "iterateIncomingBuffer ?r = (Some u, r')"
      by (simp add: iterate_literal)
    ultimately show ?thesis using less.hyps[of ?r] by simp
  next
    case (marker index len ds)
    let ?r = "\<lparr>incomingBuffer = drop (index + len) (incomingBuffer r),
                  command = command r @ take (index + len) (incomingBuffer r),
                  literalRemaining = Number ds\<rparr>"
    from marker regex_match_bounds[of "incomingBuffer r" index len "Some ds"]
    have "length (incomingBuffer ?r) < length (incomingBuffer r)" by auto
    moreover from marker less.prems have "iterateIncomingBuffer ?r = (Some u, r')"
      by (simp add: iterate_marker)
    ultimately show ?thesis using less.hyps[of ?r] by simp
  next
    case (line index len)
    with less.prems regex_match_bounds[of "incomingBuffer r" index len None] show ?thesis
      by (auto simp: iterate_line)
  qed
qed

function drain :: "reader \<Rightarrow> string list \<times> reader" where
  "drain r =
     (case iterateIncomingBuffer r of
        (None, r') \<Rightarrow> ([], r')
      | (Some u, r') \<Rightarrow>
          (case drain \<lparr>incomingBuffer = incomingBuffer r', command = [],
                        literalRemaining = literalRemaining r'\<rparr> of (us, r'') \<Rightarrow> (u # us, r'')))"
  by pat_completeness auto
termination
  by (relation "measure (\<lambda>r. length (incomingBuffer r))") (auto dest: iterate_shrinks[OF sym])

declare drain.simps [simp del]

definition buffer_append :: "reader \<Rightarrow> string \<Rightarrow> reader" where
  "buffer_append r chunk =
     \<lparr>incomingBuffer = incomingBuffer r @ chunk, command = command r,
      literalRemaining = literalRemaining r\<rparr>"

definition receive :: "reader \<Rightarrow> string \<Rightarrow> string list \<times> reader" where
  "receive r chunk = drain (buffer_append r chunk)"


lemma buffer_append_sel [simp]:
  "incomingBuffer (buffer_append r e) = incomingBuffer r @ e"
  "command (buffer_append r e) = command r"
  "literalRemaining (buffer_append r e) = literalRemaining r"
  by (simp_all add: buffer_append_def)

lemma iterate_extend:
  "iterateIncomingBuffer (buffer_append r e) =
     (case iterateIncomingBuffer r of
        (Some u, r') \<Rightarrow> (Some u, buffer_append r' e)
      | (None, r') \<Rightarrow> iterateIncomingBuffer (buffer_append r' e))"
proof (induction "length (incomingBuffer r)" arbitrary: r rule: less_induct)
  case less
  show ?case
  proof (cases r rule: iterate_cases)
    case nomatch
    then show ?thesis by (simp add: iterate_nomatch)
  next
    case wait
    then show ?thesis by (simp add: iterate_wait)
  next
    case (literal m)
    let ?r = "\<lparr>incomingBuffer = drop (literalRemaining r) (incomingBuffer r),
                command = command r @ take (literalRemaining r) (incomingBuffer r),
                literalRemaining = 0\<rparr>"
    have 1: "iterateIncomingBuffer r = iterateIncomingBuffer ?r"
      using literal by (rule iterate_literal)
    have "regex_match (incomingBuffer (buffer_append r e)) = Some m"
      using literal(1) by (simp add: regex_match_append)
    then have "iterateIncomingBuffer (buffer_append r e) = iterateIncomingBuffer (buffer_append ?r e)"
      using literal(2,3) by (subst iterate_literal[where m = m]) (simp_all add: buffer_append_def)
    moreover have "length (incomingBuffer ?r) < length (incomingBuffer r)"
      using literal by simp
    ultimately show ?thesis using less.hyps[of ?r] 1 by simp
  next
    case (marker index len ds)
    let ?r = "\<lparr>incomingBuffer = drop (index + len) (incomingBuffer r),
                  command = command r @ take (index + len) (incomingBuffer r),
                  literalRemaining = Number ds\<rparr>"
    note b = regex_match_bounds[OF marker(1)]
    have 1: "iterateIncomingBuffer r = iterateIncomingBuffer ?r"
      using marker by (rule iterate_marker)
    have "regex_match (incomingBuffer (buffer_append r e)) = Some (index, len, Some ds)"
      using marker(1) by (simp add: regex_match_append)
    then have "iterateIncomingBuffer (buffer_append r e) = iterateIncomingBuffer (buffer_append ?r e)"
      using marker(2) b by (subst iterate_marker[where index = index and len = len and ds = ds]) (simp_all add: buffer_append_def)
    moreover have "length (incomingBuffer ?r) < length (incomingBuffer r)"
      using b by auto
    ultimately show ?thesis using less.hyps[of ?r] 1 by simp
  next
    case (line index len)
    note b = regex_match_bounds[OF line(1)]
    have "regex_match (incomingBuffer (buffer_append r e)) = Some (index, len, None)"
      using line(1) by (simp add: regex_match_append)
    then have "iterateIncomingBuffer (buffer_append r e) =
       (Some (command r @ take index (incomingBuffer r)),
        buffer_append \<lparr>incomingBuffer = drop (index + len) (incomingBuffer r),
                 command = command r @ take index (incomingBuffer r),
                 literalRemaining = literalRemaining r\<rparr> e)"
      using line(2) b by (subst iterate_line[where index = index and len = len]) (simp_all add: buffer_append_def)
    then show ?thesis using line by (simp add: iterate_line)
  qed
qed

lemma drain_extend:
  "drain (buffer_append r e) =
     (case drain r of (us, r') \<Rightarrow>
        (case drain (buffer_append r' e) of (us', r'') \<Rightarrow> (us @ us', r'')))"
proof (induction "length (incomingBuffer r)" arbitrary: r rule: less_induct)
  case less
  obtain x r' where it: "iterateIncomingBuffer r = (x, r')" by (cases "iterateIncomingBuffer r")
  show ?case
  proof (cases x)
    case None
    with it have "drain r = ([], r')" by (simp add: drain.simps[of r])
    moreover have "drain (buffer_append r e) = drain (buffer_append r' e)"
      using it None by (simp add: drain.simps[of "buffer_append r e"] drain.simps[of "buffer_append r' e"] iterate_extend[of r e])
    ultimately show ?thesis by (simp split: prod.splits)
  next
    case (Some u)
    let ?r = "\<lparr>incomingBuffer = incomingBuffer r', command = [],
                literalRemaining = literalRemaining r'\<rparr>"
    from it Some have lt: "length (incomingBuffer ?r) < length (incomingBuffer r)"
      using iterate_shrinks[of r u r'] by simp
    obtain us r2 where d: "drain ?r = (us, r2)" by (cases "drain ?r")
    have 1: "drain r = (u # us, r2)" using it Some d by (simp add: drain.simps[of r])
    have it': "iterateIncomingBuffer (buffer_append r e) = (Some u, buffer_append r' e)"
      using it Some by (simp add: iterate_extend[of r e])
    have ex: "buffer_append ?r e = \<lparr>incomingBuffer = incomingBuffer r' @ e, command = [],
                literalRemaining = literalRemaining r'\<rparr>"
      by (simp add: buffer_append_def)
    have "drain (buffer_append r e) = (case drain (buffer_append ?r e) of (us, r'') \<Rightarrow> (u # us, r''))"
      by (simp add: drain.simps[of "buffer_append r e"] it' ex)
    with less.hyps[OF lt] d 1 show ?thesis by (simp split: prod.splits)
  qed
qed

fun feed_all :: "reader \<Rightarrow> string list \<Rightarrow> string list \<times> reader" where
  "feed_all r [] = ([], r)"
| "feed_all r (chunk # chunks) =
     (case receive r chunk of (us, r') \<Rightarrow>
        (case feed_all r' chunks of (us', r'') \<Rightarrow> (us @ us', r'')))"

lemma feed_all_concat:
  "feed_all r (c # cs) = receive r (concat (c # cs))"
proof (induction cs arbitrary: r c)
  case Nil
  then show ?case by (simp split: prod.splits)
next
  case (Cons c' cs)
  have "receive r (c @ concat (c' # cs)) =
     (case receive r c of (us, r') \<Rightarrow>
        (case receive r' (concat (c' # cs)) of (us', r'') \<Rightarrow> (us @ us', r'')))"
    using drain_extend[of "buffer_append r c" "concat (c' # cs)"] by (simp add: receive_def buffer_append_def)
  with Cons[of _ c'] show ?case by simp
qed

subsection \<open>Response units on the wire\<close>

text \<open>
  What a server sends for one response unit: zero or more segments, each a piece of line
  text, a literal marker \<^verbatim>\<open>{N}\<close> or \<^verbatim>\<open>{N+}\<close>, a line terminator (with or without the
  carriage return) and exactly \<open>N\<close> bytes of literal data; then the closing text and the
  plain terminator. The text of a line holds no line feed; the closing text does not end
  in a literal marker, and does not end in a carriage return when the terminator is a bare
  line feed (the bytes would read as a marker, or as the longer terminator).
\<close>

definition marker :: "string \<Rightarrow> bool \<Rightarrow> string" where
  "marker ds nonsync = ''{'' @ ds @ (if nonsync then ''+'' else []) @ ''}''"

definition terminator :: "bool \<Rightarrow> string" where
  "terminator cr = (if cr then [CR, LF] else [LF])"

lemma match_literal_marker:
  "match_literal s = Some (n, ds) \<longleftrightarrow>
     ds \<noteq> [] \<and> list_all is_digit ds \<and> (\<exists>ns t. s = marker ds ns @ t \<and> n = length (marker ds ns))"
proof -
  have "(\<exists>ns t. s = marker ds ns @ t \<and> n = length (marker ds ns)) \<longleftrightarrow>
      ((n = length ds + 3 \<and> (\<exists>t. s = ''{'' @ ds @ ''+}'' @ t)) \<or>
      (n = length ds + 2 \<and> (\<exists>t. s = ''{'' @ ds @ ''}'' @ t)))"
    (is "?A \<longleftrightarrow> ?B")
  proof
    assume ?A
    then obtain ns t where "s = marker ds ns @ t" "n = length (marker ds ns)" by auto
    then show ?B by (cases ns) (auto simp: marker_def)
  next
    assume ?B
    then show ?A
    proof
      assume "n = length ds + 3 \<and> (\<exists>t. s = ''{'' @ ds @ ''+}'' @ t)"
      then show ?A by (intro exI[where x=True]) (auto simp: marker_def)
    next
      assume "n = length ds + 2 \<and> (\<exists>t. s = ''{'' @ ds @ ''}'' @ t)"
      then show ?A by (intro exI[where x=False]) (auto simp: marker_def)
    qed
  qed
  then show ?thesis by (simp add: match_literal_Some_iff list_all_iff)
qed

lemma match_eol_terminator:
  "match_eol s = Some k \<longleftrightarrow> (\<exists>cr t. s = terminator cr @ t \<and> k = length (terminator cr))"
proof
  assume "match_eol s = Some k"
  then consider t where "k = 2" "s = CR # LF # t" | t where "k = 1" "s = LF # t"
    by (auto simp: match_eol_Some_iff)
  then show "\<exists>cr t. s = terminator cr @ t \<and> k = length (terminator cr)"
  proof cases
    case 1
    then show ?thesis by (intro exI[where x=True]) (simp add: terminator_def)
  next
    case 2
    then show ?thesis by (intro exI[where x=False]) (simp add: terminator_def)
  qed
next
  assume "\<exists>cr t. s = terminator cr @ t \<and> k = length (terminator cr)"
  then obtain cr t where "s = terminator cr @ t" "k = length (terminator cr)" by auto
  then show "match_eol s = Some k"
    by (cases cr) (auto simp: match_eol_Some_iff terminator_def)
qed

lemma match_here_terminator:
  "match_here (terminator cr @ t) = Some (length (terminator cr), None)"
  unfolding match_here_cases match_eol_terminator by auto

lemma match_here_marker:
  assumes "ds \<noteq> []" "list_all is_digit ds"
  shows "match_here (marker ds ns @ terminator cr @ t) =
           Some (length (marker ds ns) + length (terminator cr), Some ds)"
proof -
  have "match_literal (marker ds ns @ terminator cr @ t) = Some (length (marker ds ns), ds)"
    unfolding match_literal_marker using assms by auto
  moreover have "match_eol (drop (length (marker ds ns)) (marker ds ns @ terminator cr @ t))
      = Some (length (terminator cr))"
    unfolding match_eol_terminator by auto
  ultimately show ?thesis unfolding match_here_cases by blast
qed

lemma match_here_shape':
  assumes "match_here s = Some (l, g)"
  obtains (plain) cr where "g = None" "take l s = terminator cr"
  | (literal) cr ds ns where "g = Some ds" "ds \<noteq> []" "list_all is_digit ds"
      "take l s = marker ds ns @ terminator cr"
proof -
  from assms consider "g = None" "match_eol s = Some l"
    | n ds k where "g = Some ds" "match_literal s = Some (n, ds)" "match_eol (drop n s) = Some k" "l = n + k"
    by (auto simp: match_here_cases)
  then show ?thesis
  proof cases
    case 1
    then obtain cr t where "s = terminator cr @ t" "l = length (terminator cr)"
      by (auto simp: match_eol_terminator)
    with 1 plain show ?thesis by auto
  next
    case 2
    from 2(2) obtain ns t where s: "s = marker ds ns @ t" and n: "n = length (marker ds ns)"
      and d: "ds \<noteq> []" "list_all is_digit ds"
      by (auto simp: match_literal_marker)
    with 2(3) obtain cr t' where "t = terminator cr @ t'" "k = length (terminator cr)"
      by (auto simp: match_eol_terminator)
    with s n 2 have "take l s = marker ds ns @ terminator cr" by simp
    with 2(1) d literal show ?thesis by blast
  qed
qed

lemma first_LF_unique:
  assumes "s = p @ LF # t" "LF \<notin> set p" "k < length s" "s ! k = LF" "LF \<notin> set (take k s)"
  shows "k = length p"
proof (rule ccontr)
  assume "k \<noteq> length p"
  then consider "k < length p" | "length p < k" by linarith
  then show False
  proof cases
    case 1
    with assms(1,4) have "p ! k = LF" by (simp add: nth_append)
    with 1 assms(2) show False by (metis nth_mem)
  next
    case 2
    then have "take k s = p @ LF # take (k - Suc (length p)) t"
      using assms(1) by (simp add: take_Cons')
    with assms(5) show False by simp
  qed
qed

lemma match_extent:
  assumes m: "match_here (p @ LF # t) = Some (l, g)" and p: "LF \<notin> set p"
  shows "l = Suc (length p)" "match_here (p @ [LF]) = Some (l, g)"
proof -
  note b = match_here_bounds[OF m]
  from b have pos: "0 < l" "l \<le> length (p @ LF # t)" by blast+
  then have "l - 1 < length (p @ LF # t)" by linarith
  from first_LF_unique[OF refl p this] b have "l - 1 = length p" by blast
  with pos show l: "l = Suc (length p)" by linarith
  have "match_here ((p @ [LF]) @ t) = Some (l, g)" using m by simp
  from match_here_restrict[OF this] l show "match_here (p @ [LF]) = Some (l, g)" by simp
qed

lemma digit_not_special:
  "is_digit c \<Longrightarrow> c \<noteq> CHR ''{'' \<and> c \<noteq> LF"
  by (auto simp: is_digit_def LF_def)

lemma digits_no_brace: "list_all is_digit ds \<Longrightarrow> filter (\<lambda>c. c = CHR ''{'') ds = []"
  by (induction ds) (simp_all add: digit_not_special)

lemma marker_braces: "list_all is_digit ds \<Longrightarrow> filter (\<lambda>c. c = CHR ''{'') (marker ds ns) = ''{''"
  by (simp add: marker_def digits_no_brace)

lemma marker_hd_last: "hd (marker ds ns) = CHR ''{''" "last (marker ds ns) = CHR ''}''" "marker ds ns \<noteq> []"
  by (simp_all add: marker_def)

lemma terminator_split: "terminator cr = (if cr then [CR] else []) @ [LF]"
  by (simp add: terminator_def)

lemma marker_no_LF: "list_all is_digit ds \<Longrightarrow> LF \<notin> set (marker ds ns)"
proof -
  assume "list_all is_digit ds"
  then have "LF \<notin> set ds" using digit_not_special by (auto simp: list_all_iff)
  then show ?thesis by (simp add: marker_def LF_def)
qed

lemma no_match_before_marker:
  assumes u: "u \<noteq> []" "LF \<notin> set u" and ds: "list_all is_digit ds"
  shows "match_here (u @ marker ds ns @ terminator cr @ t) = None"
proof (rule ccontr)
  assume "match_here (u @ marker ds ns @ terminator cr @ t) \<noteq> None"
  then obtain l g where m: "match_here (u @ marker ds ns @ terminator cr @ t) = Some (l, g)"
    by auto
  define p where "p = u @ marker ds ns @ (if cr then [CR] else [])"
  have s: "u @ marker ds ns @ terminator cr @ t = p @ LF # t"
    by (simp add: p_def terminator_def)
  have p: "LF \<notin> set p" using u ds by (simp add: p_def marker_no_LF)
  from match_extent[OF m[unfolded s] p]
  have l: "l = Suc (length p)" and m': "match_here (p @ [LF]) = Some (l, g)" by simp_all
  from m' have tk: "take l (p @ [LF]) = p @ [LF]" using l by simp
  from m' show False
  proof (cases rule: match_here_shape')
    case (plain cr')
    with tk have "length (p @ [LF]) \<le> 2" by (simp add: terminator_def split: if_splits)
    then show False using u by (cases u) (simp_all add: p_def marker_def)
  next
    case (literal cr' ds' ns')
    with tk have eq: "p = marker ds' ns' @ (if cr' then [CR] else [])"
      by (simp add: terminator_split)
    have "cr = cr'"
    proof (rule ccontr)
      assume ne: "cr \<noteq> cr'"
      show False
      proof (cases cr)
        case True
        with ne eq have "(u @ marker ds ns) @ [CR] = marker ds' ns'" by (simp add: p_def)
        then have "last ((u @ marker ds ns) @ [CR]) = CHR ''}''" by (simp only: marker_hd_last)
        then show False by (simp add: CR_def)
      next
        case False
        with ne eq have "u @ marker ds ns = marker ds' ns' @ [CR]" by (simp add: p_def)
        then have "last (u @ marker ds ns) = CR" by simp
        then show False by (simp add: marker_hd_last CR_def)
      qed
    qed
    with eq have e2: "u @ marker ds ns = marker ds' ns'" by (simp add: p_def)
    then have "filter (\<lambda>c. c = CHR ''{'') (u @ marker ds ns) = ''{''"
      using literal(3) by (simp only: marker_braces)
    then have "filter (\<lambda>c. c = CHR ''{'') u @ ''{'' = ''{''"
      using ds by (simp add: marker_braces)
    then have "filter (\<lambda>c. c = CHR ''{'') u = []" by simp
    then have "\<forall>x\<in>set u. x \<noteq> CHR ''{''" by (simp add: filter_empty_conv)
    moreover have "hd u \<in> set u" using u(1) by simp
    moreover have "hd u = CHR ''{''"
    proof -
      have "hd (u @ marker ds ns) = hd (marker ds' ns')" by (simp only: e2)
      then show ?thesis using u(1) by (simp add: marker_hd_last)
    qed
    ultimately show False by blast
  qed
qed

definition ends_with_marker :: "string \<Rightarrow> bool" where
  "ends_with_marker s \<longleftrightarrow>
     (\<exists>pre ds ns. ds \<noteq> [] \<and> list_all is_digit ds \<and> s = pre @ marker ds ns)"

lemma no_match_before_terminator:
  assumes u: "u \<noteq> []" "LF \<notin> set u" and nm: "\<not> ends_with_marker (pre @ u)"
    and cr: "cr \<or> last u \<noteq> CR"
  shows "match_here (u @ terminator cr @ t) = None"
proof (rule ccontr)
  assume "match_here (u @ terminator cr @ t) \<noteq> None"
  then obtain l g where m: "match_here (u @ terminator cr @ t) = Some (l, g)"
    by auto
  define p where "p = u @ (if cr then [CR] else [])"
  have s: "u @ terminator cr @ t = p @ LF # t"
    by (simp add: p_def terminator_def)
  have p: "LF \<notin> set p" using u by (simp add: p_def)
  from match_extent[OF m[unfolded s] p]
  have l: "l = Suc (length p)" and m': "match_here (p @ [LF]) = Some (l, g)" by simp_all
  from m' have tk: "take l (p @ [LF]) = p @ [LF]" using l by simp
  from m' show False
  proof (cases rule: match_here_shape')
    case (plain cr')
    with tk have "p = (if cr' then [CR] else [])" by (simp add: terminator_split)
    with u cr show False by (cases cr; cases cr') (auto simp: p_def)
  next
    case (literal cr' ds' ns')
    with tk have eq: "p = marker ds' ns' @ (if cr' then [CR] else [])"
      by (simp add: terminator_split)
    have "cr = cr'"
    proof (rule ccontr)
      assume ne: "cr \<noteq> cr'"
      show False
      proof (cases cr)
        case True
        with ne eq have "u @ [CR] = marker ds' ns'" by (simp add: p_def)
        then have "last (u @ [CR]) = CHR ''}''" by (simp add: marker_hd_last)
        then show False by (simp add: CR_def)
      next
        case False
        with ne eq have "u = marker ds' ns' @ [CR]" by (simp add: p_def)
        then have "last u = CR" by simp
        with False cr show False by simp
      qed
    qed
    with eq have "u = marker ds' ns'" by (simp add: p_def)
    with literal(2,3) have "ends_with_marker (pre @ u)"
      unfolding ends_with_marker_def by blast
    with nm show False by simp
  qed
qed

lemma regex_match_skip:
  assumes "\<And>j. j < length u \<Longrightarrow> match_here (drop j u @ s) = None"
  shows "regex_match (u @ s) = map_option (\<lambda>(i, l, g). (length u + i, l, g)) (regex_match s)"
  using assms
proof (induction u)
  case Nil
  then show ?case by (simp add: option.map_ident case_prod_unfold)
next
  case (Cons c u)
  from Cons.prems[of 0] have h: "match_here (c # u @ s) = None" by simp
  have "\<And>j. j < length u \<Longrightarrow> match_here (drop j u @ s) = None"
    using Cons.prems[of "Suc _"] by simp
  from Cons.IH[OF this] h show ?case
    by (simp add: option.map_comp comp_def case_prod_unfold)
qed

lemma regex_match_here:
  "match_here s = Some (l, g) \<Longrightarrow> regex_match s = Some (0, l, g)"
  by (cases s) (simp_all add: match_here_def match_eol_def match_literal_def)

datatype segment =
  Segment (seg_text: string) (seg_digits: string) (seg_nonsync: bool) (seg_cr: bool)
    (seg_literal: string)

datatype response_unit =
  ResponseUnit (segments: "segment list") (final_text: string) (final_cr: bool)

definition segment_wire :: "segment \<Rightarrow> string" where
  "segment_wire sg =
     seg_text sg @ marker (seg_digits sg) (seg_nonsync sg) @ terminator (seg_cr sg) @ seg_literal sg"

definition unit_content :: "response_unit \<Rightarrow> string" where
  "unit_content u = concat (map segment_wire (segments u)) @ final_text u"

definition unit_wire :: "response_unit \<Rightarrow> string" where
  "unit_wire u = unit_content u @ terminator (final_cr u)"

definition wf_segment :: "segment \<Rightarrow> bool" where
  "wf_segment sg \<longleftrightarrow>
     LF \<notin> set (seg_text sg) \<and> seg_digits sg \<noteq> [] \<and> list_all is_digit (seg_digits sg) \<and>
     Number (seg_digits sg) = length (seg_literal sg)"

definition wf_unit :: "response_unit \<Rightarrow> bool" where
  "wf_unit u \<longleftrightarrow>
     list_all wf_segment (segments u) \<and> LF \<notin> set (final_text u) \<and>
     \<not> ends_with_marker (final_text u) \<and>
     (final_cr u \<or> final_text u = [] \<or> last (final_text u) \<noteq> CR)"

lemma regex_match_segment:
  assumes "LF \<notin> set tx" "ds \<noteq> []" "list_all is_digit ds"
  shows "regex_match (tx @ marker ds ns @ terminator cr @ t) =
           Some (length tx, length (marker ds ns) + length (terminator cr), Some ds)"
proof -
  have "\<And>j. j < length tx \<Longrightarrow> match_here (drop j tx @ marker ds ns @ terminator cr @ t) = None"
    using assms(1,3) by (intro no_match_before_marker) (auto dest: in_set_dropD)
  from regex_match_skip[OF this] show ?thesis
    using regex_match_here[OF match_here_marker[OF assms(2,3)]] by simp
qed

lemma regex_match_final:
  assumes "LF \<notin> set tx" "\<not> ends_with_marker tx" "cr \<or> tx = [] \<or> last tx \<noteq> CR"
  shows "regex_match (tx @ terminator cr @ t) = Some (length tx, length (terminator cr), None)"
proof -
  have "match_here (drop j tx @ terminator cr @ t) = None" if j: "j < length tx" for j
  proof (rule no_match_before_terminator[where pre = "take j tx"])
    show "drop j tx \<noteq> []" using j by simp
    show "LF \<notin> set (drop j tx)" using assms(1) by (auto dest: in_set_dropD)
    show "\<not> ends_with_marker (take j tx @ drop j tx)" using assms(2) by simp
    show "cr \<or> last (drop j tx) \<noteq> CR" using assms(3) j by auto
  qed
  from regex_match_skip[of tx "terminator cr @ t", OF this] show ?thesis
    using regex_match_here[OF match_here_terminator] by simp
qed

lemma terminator_LF: "LF \<in> set (terminator cr)"
  by (simp add: terminator_def)

lemma iterate_unit:
  assumes "list_all wf_segment sgs" "LF \<notin> set fin" "\<not> ends_with_marker fin"
    "cr \<or> fin = [] \<or> last fin \<noteq> CR"
  shows "iterateIncomingBuffer
           \<lparr>incomingBuffer = concat (map segment_wire sgs) @ fin @ terminator cr @ rest,
            command = acc, literalRemaining = 0\<rparr> =
         (Some (acc @ concat (map segment_wire sgs) @ fin),
          \<lparr>incomingBuffer = rest, command = acc @ concat (map segment_wire sgs) @ fin,
           literalRemaining = 0\<rparr>)"
  using assms(1)
proof (induction sgs arbitrary: acc)
  case Nil
  have "regex_match (fin @ terminator cr @ rest) = Some (length fin, length (terminator cr), None)"
    using assms(2-4) by (rule regex_match_final)
  then show ?case
    by (subst iterate_line[where index = "length fin" and len = "length (terminator cr)"]) simp_all
next
  case (Cons sg sgs)
  obtain tx ds ns c lit where sg: "sg = Segment tx ds ns c lit" by (cases sg)
  from Cons.prems have wsg: "wf_segment sg" and wfs: "list_all wf_segment sgs"
    by simp_all
  from wsg sg have wf: "LF \<notin> set tx" "ds \<noteq> []" "list_all is_digit ds" "Number ds = length lit"
    by (simp_all add: wf_segment_def)
  define REST where "REST = concat (map segment_wire sgs) @ fin @ terminator cr @ rest"
  define hdr where "hdr = tx @ marker ds ns @ terminator c"
  have buf: "concat (map segment_wire (sg # sgs)) @ fin @ terminator cr @ rest = hdr @ lit @ REST"
    by (simp add: sg segment_wire_def REST_def hdr_def)
  have m1: "regex_match (hdr @ lit @ REST) = Some (length tx, length (marker ds ns) + length (terminator c), Some ds)"
    unfolding hdr_def using regex_match_segment[OF wf(1-3), of ns c "lit @ REST"] by simp
  have len: "length tx + (length (marker ds ns) + length (terminator c)) = length hdr"
    by (simp add: hdr_def)
  have step1: "iterateIncomingBuffer \<lparr>incomingBuffer = hdr @ lit @ REST, command = acc, literalRemaining = 0\<rparr>
      = iterateIncomingBuffer \<lparr>incomingBuffer = lit @ REST, command = acc @ hdr, literalRemaining = length lit\<rparr>"
    by (subst iterate_marker[where index = "length tx" and len = "length (marker ds ns) + length (terminator c)" and ds = ds])
       (simp_all add: m1 len wf(4))
  have step2: "iterateIncomingBuffer \<lparr>incomingBuffer = lit @ REST, command = acc @ hdr, literalRemaining = length lit\<rparr>
      = iterateIncomingBuffer \<lparr>incomingBuffer = REST, command = (acc @ hdr) @ lit, literalRemaining = 0\<rparr>"
  proof (cases "lit = []")
    case True
    then show ?thesis by simp
  next
    case False
    have "LF \<in> set (lit @ REST)" by (simp add: REST_def terminator_LF)
    then obtain m where "regex_match (lit @ REST) = Some m"
      using regex_match_exists by blast
    then show ?thesis using False
      by (subst iterate_literal[where m = m]) simp_all
  qed
  have "(acc @ hdr) @ lit = acc @ segment_wire sg" by (simp add: hdr_def sg segment_wire_def)
  with step1 step2 Cons.IH[OF wfs, of "acc @ segment_wire sg"] show ?case
    unfolding buf by (simp add: REST_def)
qed

definition new_reader :: reader where
  "new_reader = \<lparr>incomingBuffer = [], command = [], literalRemaining = 0\<rparr>"

lemma drain_units:
  assumes "list_all wf_unit us"
  shows "drain \<lparr>incomingBuffer = concat (map unit_wire us), command = [], literalRemaining = 0\<rparr>
           = (map unit_content us, new_reader)"
  using assms
proof (induction us)
  case Nil
  then show ?case by (simp add: drain.simps iterate_nomatch new_reader_def)
next
  case (Cons u us)
  from Cons.prems have wu: "wf_unit u" and wfs: "list_all wf_unit us"
    by simp_all
  from wu have wf: "list_all wf_segment (segments u)" "LF \<notin> set (final_text u)"
     "\<not> ends_with_marker (final_text u)"
     "final_cr u \<or> final_text u = [] \<or> last (final_text u) \<noteq> CR"
    by (simp_all add: wf_unit_def)
  have "iterateIncomingBuffer
          \<lparr>incomingBuffer = concat (map unit_wire (u # us)), command = [], literalRemaining = 0\<rparr>
        = (Some (unit_content u),
           \<lparr>incomingBuffer = concat (map unit_wire us), command = unit_content u, literalRemaining = 0\<rparr>)"
    using iterate_unit[OF wf, of "concat (map unit_wire us)" "[]"]
    by (simp add: unit_wire_def unit_content_def)
  with Cons.IH[OF wfs] show ?case
    by (subst drain.simps) simp
qed

lemma ends_with_marker_last:
  "ends_with_marker s \<Longrightarrow> s \<noteq> [] \<and> last s = CHR ''}''"
  by (auto simp: ends_with_marker_def marker_def)

text \<open>
  Claim C3. For every byte stream that is the concatenation of complete response units and
  for every way of cutting it into chunks, the reader fed chunk by chunk emits exactly the
  units, in order: each unit is its line text without the closing terminator, with the
  markers, their terminators and the exact bytes of each announced literal in place
  (literal bytes are arbitrary: they may hold terminators and markers). Afterwards the
  reader is back in its initial state.
\<close>

theorem framing_reader_chunking:
  assumes "list_all wf_unit us" "concat chunks = concat (map unit_wire us)"
  shows "feed_all new_reader chunks = (map unit_content us, new_reader)"
proof (cases chunks)
  case Nil
  with assms(2) have "concat (map unit_wire us) = []" by simp
  then have "us = []" by (cases us) (auto simp: unit_wire_def terminator_def split: if_splits)
  with Nil show ?thesis by simp
next
  case (Cons c cs)
  have "feed_all new_reader (c # cs) = receive new_reader (concat (c # cs))"
    by (rule feed_all_concat)
  also have "\<dots> = drain \<lparr>incomingBuffer = concat (map unit_wire us), command = [], literalRemaining = 0\<rparr>"
    using assms(2) Cons by (simp add: receive_def buffer_append_def new_reader_def)
  also have "\<dots> = (map unit_content us, new_reader)"
    using assms(1) by (rule drain_units)
  finally show ?thesis using Cons by simp
qed

theorem framing_reader_chunking_witness:
  "list_all wf_unit
     [ResponseUnit [Segment ''* 1 FETCH (BODY[] '' ''5'' False True ''hello''] '')'' True] \<and>
   concat [''* 1 FETCH (BODY[] {'', ''5}'' @ [CR], [LF] @ ''hel'', ''lo)'' @ EOL] =
     concat (map unit_wire
       [ResponseUnit [Segment ''* 1 FETCH (BODY[] '' ''5'' False True ''hello''] '')'' True]) \<and>
   feed_all new_reader [''* 1 FETCH (BODY[] {'', ''5}'' @ [CR], [LF] @ ''hel'', ''lo)'' @ EOL] =
     ([''* 1 FETCH (BODY[] {5}'' @ EOL @ ''hello)''], new_reader)"
proof -
  let ?us = "[ResponseUnit [Segment ''* 1 FETCH (BODY[] '' ''5'' False True ''hello''] '')'' True]"
  let ?chunks = "[''* 1 FETCH (BODY[] {'', ''5}'' @ [CR], [LF] @ ''hel'', ''lo)'' @ EOL]"
  have nm: "\<not> ends_with_marker '')''"
    using ends_with_marker_last[of "'')''"] by auto
  have wf: "list_all wf_unit ?us"
    by (simp add: wf_unit_def wf_segment_def nm LF_def CR_def is_digit_def Number_def digit_val_def)
  have eq: "concat ?chunks = concat (map unit_wire ?us)"
    by (simp add: unit_wire_def unit_content_def segment_wire_def marker_def terminator_def EOL_def)
  have "map unit_content ?us = [''* 1 FETCH (BODY[] {5}'' @ EOL @ ''hello)'']"
    by (simp add: unit_content_def segment_wire_def marker_def terminator_def EOL_def)
  with framing_reader_chunking[OF wf eq] wf eq show ?thesis by simp
qed

text \<open>
  Claim C8. A literal marker announcing zero bytes is framed like any other: the marker and
  its terminator go into the unit, no literal byte is taken, nothing is emitted until the
  closing plain terminator arrives, and the unit is emitted when it does.
\<close>

theorem zero_length_literal:
  assumes "LF \<notin> set a" "ds \<noteq> []" "list_all is_digit ds" "Number ds = 0"
    and "LF \<notin> set b" "\<not> ends_with_marker b" "cr2 \<or> b = [] \<or> last b \<noteq> CR"
  shows "receive new_reader (a @ marker ds ns @ terminator cr1) =
           ([], \<lparr>incomingBuffer = [], command = a @ marker ds ns @ terminator cr1,
                 literalRemaining = 0\<rparr>) \<and>
         receive \<lparr>incomingBuffer = [], command = a @ marker ds ns @ terminator cr1,
                  literalRemaining = 0\<rparr> (b @ terminator cr2) =
           ([a @ marker ds ns @ terminator cr1 @ b], new_reader) \<and>
         receive new_reader (a @ marker ds ns @ terminator cr1 @ b @ terminator cr2) =
           ([a @ marker ds ns @ terminator cr1 @ b], new_reader)"
proof (intro conjI)
  let ?hdr = "a @ marker ds ns @ terminator cr1"
  have m: "regex_match (?hdr @ []) =
      Some (length a, length (marker ds ns) + length (terminator cr1), Some ds)"
    using regex_match_segment[OF assms(1-3), of ns cr1 "[]"] by simp
  have "iterateIncomingBuffer \<lparr>incomingBuffer = ?hdr, command = [], literalRemaining = 0\<rparr> =
      iterateIncomingBuffer \<lparr>incomingBuffer = [], command = ?hdr, literalRemaining = 0\<rparr>"
    using m assms(4)
    by (subst iterate_marker[where index = "length a"
          and len = "length (marker ds ns) + length (terminator cr1)" and ds = ds]) simp_all
  also have "\<dots> = (None, \<lparr>incomingBuffer = [], command = ?hdr, literalRemaining = 0\<rparr>)"
    by (simp add: iterate_nomatch)
  finally show "receive new_reader ?hdr =
      ([], \<lparr>incomingBuffer = [], command = ?hdr, literalRemaining = 0\<rparr>)"
    by (simp add: receive_def buffer_append_def new_reader_def drain.simps)
next
  let ?hdr = "a @ marker ds ns @ terminator cr1"
  have "iterateIncomingBuffer
          \<lparr>incomingBuffer = concat (map segment_wire []) @ b @ terminator cr2 @ [],
           command = ?hdr, literalRemaining = 0\<rparr> =
        (Some (?hdr @ concat (map segment_wire []) @ b),
         \<lparr>incomingBuffer = [], command = ?hdr @ concat (map segment_wire []) @ b,
          literalRemaining = 0\<rparr>)"
    using assms(5-7) by (intro iterate_unit) simp_all
  then show "receive \<lparr>incomingBuffer = [], command = ?hdr, literalRemaining = 0\<rparr>
      (b @ terminator cr2) = ([a @ marker ds ns @ terminator cr1 @ b], new_reader)"
    by (simp add: receive_def buffer_append_def new_reader_def drain.simps iterate_nomatch)
next
  let ?u = "ResponseUnit [Segment a ds ns cr1 []] b cr2"
  have "list_all wf_unit [?u]"
    using assms by (simp add: wf_unit_def wf_segment_def)
  from drain_units[OF this]
  show "receive new_reader (a @ marker ds ns @ terminator cr1 @ b @ terminator cr2) =
      ([a @ marker ds ns @ terminator cr1 @ b], new_reader)"
    by (simp add: receive_def buffer_append_def new_reader_def unit_wire_def unit_content_def
        segment_wire_def)
qed

theorem zero_length_literal_witness:
  "receive new_reader (''A {0}'' @ EOL) =
     ([], \<lparr>incomingBuffer = [], command = ''A {0}'' @ EOL, literalRemaining = 0\<rparr>) \<and>
   receive \<lparr>incomingBuffer = [], command = ''A {0}'' @ EOL, literalRemaining = 0\<rparr>
     ('' B'' @ EOL) = ([''A {0}'' @ EOL @ '' B''], new_reader) \<and>
   receive new_reader (''A {0}'' @ EOL @ '' B'' @ EOL) = ([''A {0}'' @ EOL @ '' B''], new_reader)"
proof -
  have nm: "\<not> ends_with_marker '' B''"
    using ends_with_marker_last[of "'' B''"] by auto
  have h: "LF \<notin> set ''A ''" "''0'' \<noteq> []" "list_all is_digit ''0''" "Number ''0'' = 0"
    "LF \<notin> set '' B''" "True \<or> '' B'' = [] \<or> last '' B'' \<noteq> CR"
    by (simp_all add: LF_def is_digit_def Number_def digit_val_def)
  from zero_length_literal[OF h(1-5) nm h(6), of False True]
  show ?thesis by (simp add: marker_def terminator_def EOL_def)
qed

subsection \<open>JavaScript strings and values\<close>

text \<open>
  The strings of the wire (the incoming buffer, the units, the tags and what is sent) are
  lists of 8-bit characters. The strings inside a parsed response, the names of handlers
  and of payload buckets are upper-cased by the client, and the upper case of a byte need
  not be a byte: such a string is a list of UTF-16 code units, \<open>jstring\<close>, and \<open>js\<close> reads
  a string of 8-bit characters as one.

  \<open>toUpperCase\<close> and \<open>toLowerCase\<close> are the case mappings of JavaScript on the code
  units below 256 and on what they are mapped to: the letters \<open>a\<close> to \<open>z\<close> and the
  Latin-1 letters \<open>0xE0\<close> to \<open>0xFE\<close> (the division sign \<open>0xF7\<close> apart) lose 32, the
  sharp s \<open>0xDF\<close> becomes \<open>SS\<close>, the micro sign \<open>0xB5\<close> the Greek capital mu
  \<open>0x39C\<close>, and \<open>0xFF\<close> becomes \<open>0x178\<close>; the way back gives \<open>0x3BC\<close> for the capital
  mu. Code units outside this set are left as they are; the client meets none unless user
  code passes one in a name. \<open>trim\<close> removes the white space and the line terminators of
  JavaScript at both ends. \<open>decimal\<close> is the conversion of a counter to a string in
  \<^verbatim>\<open>'W' + (++this._tagCounter)\<close>.

  A property of a response holds \<^verbatim>\<open>undefined\<close>, a string or an array. \<open>js_toString\<close> is
  \<^verbatim>\<open>toString\<close>: an array is joined with commas, an \<^verbatim>\<open>undefined\<close> element printed as
  nothing. \<open>truthy\<close> is the truth value of a value in a condition.
\<close>

type_synonym jstring = "int list"

definition js :: "string \<Rightarrow> jstring" where
  "js s = map of_char s"

definition upper_unit :: "int \<Rightarrow> jstring" where
  "upper_unit u =
     (if 97 \<le> u \<and> u \<le> 122 then [u - 32]
      else if u = 181 then [924]
      else if u = 223 then [83, 83]
      else if 224 \<le> u \<and> u \<le> 254 \<and> u \<noteq> 247 then [u - 32]
      else if u = 255 then [376]
      else if u = 956 then [924]
      else [u])"

definition lower_unit :: "int \<Rightarrow> int" where
  "lower_unit u =
     (if 65 \<le> u \<and> u \<le> 90 then u + 32
      else if 192 \<le> u \<and> u \<le> 222 \<and> u \<noteq> 215 then u + 32
      else if u = 376 then 255
      else if u = 924 then 956
      else u)"

definition toUpperCase :: "jstring \<Rightarrow> jstring" where
  "toUpperCase s = concat (map upper_unit s)"

definition toLowerCase :: "jstring \<Rightarrow> jstring" where
  "toLowerCase s = map lower_unit s"

definition is_space :: "int \<Rightarrow> bool" where
  "is_space u =
     (u \<in> set [9, 10, 11, 12, 13, 32, 160, 5760, 8232, 8233, 8239, 8287, 12288, 65279] \<or>
      (8192 \<le> u \<and> u \<le> 8202))"

definition trim :: "jstring \<Rightarrow> jstring" where
  "trim s = rev (dropWhile is_space (rev (dropWhile is_space s)))"

lemma case_mapping_examples:
  "toUpperCase (js ''alert'') = js ''ALERT''"
  "toUpperCase [0xE9, 0xDF, 0xFF, 0xB5, 0xF7] = [0xC9, 0x53, 0x53, 0x178, 0x39C, 0xF7]"
  "toLowerCase (js ''CAPABILITY'') = js ''capability''"
  "toLowerCase [0xC9, 0x178, 0x39C, 0xD7] = [0xE9, 0xFF, 0x3BC, 0xD7]"
  "trim ([0xA0, 9] @ js ''a b'' @ [13, 10, 32]) = js ''a b''"
  by code_simp+

function decimal :: "nat \<Rightarrow> string" where
  "decimal n =
     (if n < 10 then [char_of (48 + n)]
      else decimal (n div 10) @ [char_of (48 + n mod 10)])"
  by pat_completeness auto
termination
  by (relation "measure id") auto

declare decimal.simps [simp del]

datatype jsvalue = Undefined | Str jstring | Arr "jsvalue list"

fun join :: "jstring list \<Rightarrow> jstring" where
  "join [] = []"
| "join [s] = s"
| "join (s # t # ss) = s @ js '','' @ join (t # ss)"

fun js_toString :: "jsvalue \<Rightarrow> jstring" where
  "js_toString Undefined = js ''undefined''"
| "js_toString (Str s) = s"
| "js_toString (Arr vs) =
     join (map (\<lambda>v. case v of Undefined \<Rightarrow> [] | _ \<Rightarrow> js_toString v) vs)"

definition truthy :: "jsvalue \<Rightarrow> bool" where
  "truthy v = (case v of Undefined \<Rightarrow> False | Str s \<Rightarrow> s \<noteq> [] | Arr vs \<Rightarrow> True)"

subsection \<open>Parsed responses and \<^verbatim>\<open>_processResponse\<close>\<close>

text \<open>
  The parser of the IMAP grammar is outside the client; the client sees its result, an
  object with \<^verbatim>\<open>tag\<close>, \<^verbatim>\<open>command\<close> and \<^verbatim>\<open>attributes\<close>. An attribute is a node with a
  \<^verbatim>\<open>type\<close>, a \<^verbatim>\<open>value\<close> and, for a bracketed atom, a \<^verbatim>\<open>section\<close>; or a list; or
  \<^verbatim>\<open>null\<close> (NIL), on which a property read throws. An entry of a section is \<^verbatim>\<open>null\<close>, a
  node, or a list of nodes.

  \<^verbatim>\<open>_processResponse\<close> changes the object in place: it sets \<^verbatim>\<open>nr\<close>, \<^verbatim>\<open>humanReadable\<close> and
  \<^verbatim>\<open>code\<close>, and at its end \<^verbatim>\<open>response[key.toLowerCase()]\<close>, a property whose name comes
  from the server. \<open>assign\<close> is that last write. Under the name \<open>tag\<close>, \<open>command\<close> or
  \<open>code\<close> it replaces the property of the response that the router and the callback read
  afterwards, so these three fields hold any value. Under the name \<open>__proto__\<close> it adds no
  property (the setter of \<^verbatim>\<open>Object.prototype\<close> ignores a string and \<^verbatim>\<open>undefined\<close> and takes
  an array as the prototype; the client reads no property that an array would supply).
  Under every other name the property is kept in \<open>properties\<close>, in the order of creation;
  a property written there under the name \<open>attributes\<close> or \<open>nr\<close> is the property of the
  object from then on, in place of the field of that name, which the client does not read
  again.

  \<open>numbered\<close>, \<open>human\<close> and \<open>response_code\<close> are the three steps of the function in its
  order; \<open>or_empty v\<close> is \<^verbatim>\<open>v || ''\<close> on the value of a node and \<open>command_text\<close> is
  \<^verbatim>\<open>(response.command || '').toString()\<close>. \<open>digits\<close> is the test \<^verbatim>\<open>/^\d+$/\<close> and
  \<open>number\<close> reads such a string.
\<close>

datatype js_error = TypeError

datatype section_key = KeyNull | KeyNode "jstring option" | KeyList "jstring option list"

datatype attribute =
  Node (atype: string) (avalue: "jstring option") (asection: "section_key list option")
  | ListAttr
  | NilAttr

record response =
  r_tag :: jsvalue
  r_command :: jsvalue
  attributes :: "attribute list"
  nr :: "nat option"
  humanReadable :: "jstring option"
  code :: jsvalue
  properties :: "(jstring \<times> jsvalue) list"

definition or_empty :: "jstring option \<Rightarrow> jstring" where
  "or_empty v = (case v of None \<Rightarrow> [] | Some s \<Rightarrow> s)"

definition command_text :: "jsvalue \<Rightarrow> jstring" where
  "command_text v = (if truthy v then js_toString v else [])"

definition digits :: "jstring \<Rightarrow> bool" where
  "digits s = (s \<noteq> [] \<and> list_all (\<lambda>u. 48 \<le> u \<and> u \<le> 57) s)"

definition number :: "jstring \<Rightarrow> nat" where
  "number s = foldl (\<lambda>n u. 10 * n + nat (u - 48)) 0 s"

definition attr_type :: "attribute \<Rightarrow> js_error + string option" where
  "attr_type a =
     (case a of Node t v s \<Rightarrow> Inr (Some t) | ListAttr \<Rightarrow> Inr None | NilAttr \<Rightarrow> Inl TypeError)"

definition numbered :: "response \<Rightarrow> js_error + response" where
  "numbered response =
     (if r_tag response = Str (js ''*'') \<and> digits (js_toString (r_command response)) then
        (case attributes response of
           [] \<Rightarrow> Inl TypeError
         | a # rest \<Rightarrow>
             (case attr_type a of
                Inl e \<Rightarrow> Inl e
              | Inr t \<Rightarrow>
                  if t = Some ''ATOM'' then
                    Inr (response\<lparr>nr := Some (number (js_toString (r_command response))),
                           r_command := Str (trim (toUpperCase (or_empty (avalue a)))),
                           attributes := rest\<rparr>)
                  else Inr response))
      else Inr response)"

definition human :: "response \<Rightarrow> js_error + response" where
  "human response =
     (case attributes response of
        [] \<Rightarrow> Inl TypeError
      | a # rest \<Rightarrow>
          (case attr_type (last (a # rest)) of
             Inl e \<Rightarrow> Inl e
           | Inr t \<Rightarrow>
               if t = Some ''TEXT''
               then Inr (response\<lparr>humanReadable := avalue (last (a # rest))\<rparr>)
               else Inr response))"

definition section_option :: "section_key \<Rightarrow> jsvalue" where
  "section_option key =
     (case key of
        KeyNull \<Rightarrow> Undefined
      | KeyList ks \<Rightarrow> Arr (map (\<lambda>k. Str (trim (or_empty k))) ks)
      | KeyNode v \<Rightarrow> Str (trim (toUpperCase (or_empty v))))"

fun put :: "(jstring \<times> jsvalue) list \<Rightarrow> jstring \<Rightarrow> jsvalue \<Rightarrow> (jstring \<times> jsvalue) list" where
  "put [] name v = [(name, v)]"
| "put (kv # kvs) name v = (if fst kv = name then (name, v) # kvs else kv # put kvs name v)"

definition assign :: "response \<Rightarrow> jstring \<Rightarrow> jsvalue \<Rightarrow> response" where
  "assign response name v =
     (if name = js ''tag'' then response\<lparr>r_tag := v\<rparr>
      else if name = js ''command'' then response\<lparr>r_command := v\<rparr>
      else if name = js ''code'' then response\<lparr>code := v\<rparr>
      else if name = js ''__proto__'' then response
      else response\<lparr>properties := put (properties response) name v\<rparr>)"

definition response_code :: "response \<Rightarrow> js_error + response" where
  "response_code response =
     (case attributes response of
        [] \<Rightarrow> Inl TypeError
      | a # rest \<Rightarrow>
          (case a of
             NilAttr \<Rightarrow> Inl TypeError
           | ListAttr \<Rightarrow> Inr response
           | Node t v None \<Rightarrow> Inr response
           | Node t v (Some sect) \<Rightarrow>
               if t \<noteq> ''ATOM'' then Inr response
               else
                 (case map section_option sect of
                    [] \<Rightarrow> Inr (response\<lparr>code := Undefined\<rparr>)
                  | key # opt \<Rightarrow>
                      if opt = [] then Inr (response\<lparr>code := key\<rparr>)
                      else
                        (case key of
                           Str k \<Rightarrow>
                             Inr (assign (response\<lparr>code := key\<rparr>) (toLowerCase k)
                                    (if length opt = 1 then hd opt else Arr opt))
                         | Undefined \<Rightarrow> Inl TypeError
                         | Arr ks \<Rightarrow> Inl TypeError))))"

definition processResponse :: "response \<Rightarrow> js_error + response" where
  "processResponse response =
     (let name = trim (toUpperCase (command_text (r_command response))) in
      if attributes response = [] then Inr response
      else
        (case numbered response of
           Inl e \<Rightarrow> Inl e
         | Inr response1 \<Rightarrow>
             if name \<notin> set (map js [''OK'', ''NO'', ''BAD'', ''BYE'', ''PREAUTH''])
             then Inr response1
             else
               (case human response1 of
                  Inl e \<Rightarrow> Inl e
                | Inr response2 \<Rightarrow> response_code response2)))"

subsection \<open>Commands, completions and the client state\<close>

text \<open>
  A queued command is the object \<^verbatim>\<open>data\<close> built by \<^verbatim>\<open>enqueueCommand\<close>. \<open>cid\<close> stands for
  the identity of that object (\<^verbatim>\<open>indexOf\<close> compares by identity): the value of the tag
  counter at its creation; \<open>ctx\<close> refers to a command by it. \<open>precheck\<close> tells whether the
  command still carries a precheck function, \<open>data = None\<close> is the field before the
  compiler has set it. The options are the three that the client reads: \<^verbatim>\<open>ctx\<close>,
  \<^verbatim>\<open>precheck\<close> and \<^verbatim>\<open>errorResponseExpectsEmptyLine\<close>. The payload is the object with
  one bucket for each accepted name.

  \<open>callback\<close> is the closure stored in \<^verbatim>\<open>data.callback\<close>; its result is the settlement of
  the promise that \<^verbatim>\<open>enqueueCommand\<close> returned. What the client does to the outside is
  recorded in \<open>events\<close>, in order: the strings given to \<^verbatim>\<open>send\<close>, the callbacks of
  commands with their settlement, the calls of global handlers and of prechecks (both user
  code, taken not to call back into the client before they return), \<^verbatim>\<open>onready\<close>, and the
  entries into \<^verbatim>\<open>_onError\<close>. The two timers are kept as fields: whether the idle timer is
  armed, and the delay of the armed socket timeout. Compression changes only who is given
  the string in \<^verbatim>\<open>send\<close> and is left out. The payload that the router attaches to a
  completed response is the second component of \<open>ResponseArg\<close>; \<open>None\<close> there leaves the
  response as the post-processing made it.
\<close>

type_synonym payload = "(jstring \<times> response list) list"

record request =
  q_command :: string
  q_tag :: string

record cmd =
  cid :: nat
  tag :: string
  request :: request
  payload :: "payload option"
  data :: "string list option"
  precheck :: bool
  ctx :: "nat option"
  errorResponseExpectsEmptyLine :: "bool option"

record options =
  o_ctx :: "nat option"
  o_precheck :: bool
  o_errorResponseExpectsEmptyLine :: "bool option"

record error_object =
  message :: jstring
  error_code :: jsvalue

datatype callback_arg = ErrorArg error_object | ResponseArg response "payload option"

datatype settlement = Rejected error_object | Resolved response "payload option"

definition callback :: "callback_arg \<Rightarrow> settlement" where
  "callback arg =
     (case arg of
        ErrorArg e \<Rightarrow> Rejected e
      | ResponseArg response p \<Rightarrow>
          if trim (toUpperCase (command_text (r_command response))) \<in>
               set (map js [''NO'', ''BAD'']) then
            Rejected
              \<lparr>message = (case humanReadable response of
                            None \<Rightarrow> js ''Error''
                          | Some h \<Rightarrow> if h = [] then js ''Error'' else h),
               error_code = (if truthy (code response) then code response else Undefined)\<rparr>
          else Resolved response p)"

datatype event =
  Send string
  | Callback nat settlement
  | Handler jstring response
  | Precheck nat
  | OnReady
  | OnError

record client =
  connectionReady :: bool
  globalAcceptUntagged :: "jstring list"
  clientQueue :: "cmd list"
  canSend :: bool
  tagCounter :: nat
  currentCommand :: "cmd option"
  restartQueue :: bool
  idleTimer :: bool
  socketTimeoutTimer :: "nat option"
  framing :: reader
  events :: "event list"

definition new_client :: client where
  "new_client =
     \<lparr>connectionReady = False, globalAcceptUntagged = [], clientQueue = [], canSend = False,
      tagCounter = 0, currentCommand = None, restartQueue = False, idleTimer = False,
      socketTimeoutTimer = None, framing = new_reader, events = []\<rparr>"

definition emit :: "client \<Rightarrow> event \<Rightarrow> client" where
  "emit st e = st\<lparr>events := events st @ [e]\<rparr>"

definition TIMEOUT_SOCKET_LOWER_BOUND :: nat where
  "TIMEOUT_SOCKET_LOWER_BOUND = 10000"

definition send :: "client \<Rightarrow> string \<Rightarrow> client" where
  "send st str =
     emit (st\<lparr>socketTimeoutTimer := Some (TIMEOUT_SOCKET_LOWER_BOUND + length str div 10)\<rparr>)
       (Send str)"

definition enterIdle :: "client \<Rightarrow> client" where
  "enterIdle st = st\<lparr>idleTimer := True\<rparr>"

definition clearIdle :: "client \<Rightarrow> client" where
  "clearIdle st = st\<lparr>idleTimer := False\<rparr>"

definition setHandler :: "client \<Rightarrow> jstring \<Rightarrow> client" where
  "setHandler st name =
     st\<lparr>globalAcceptUntagged :=
          List.insert (trim (toUpperCase name)) (globalAcceptUntagged st)\<rparr>"

subsection \<open>The command queue and the sender\<close>

text \<open>
  \<open>sendRequest\<close> is \<^verbatim>\<open>_sendRequest\<close>. The compiler of the IMAP grammar is a parameter.
  The sender calls it twice inside one \<^verbatim>\<open>try\<close>, for the chunk list stored in \<^verbatim>\<open>data\<close>
  and then for a line to log, which it does not use; the parameter gives the outcome of
  the pair: the first call throws, the first call returns the chunks and the second
  throws, or both return. An empty chunk list makes \<^verbatim>\<open>data.shift()\<close> the value
  \<^verbatim>\<open>undefined\<close>, which the string concatenation prints. \<open>enqueue\<close> is the part of
  \<^verbatim>\<open>enqueueCommand\<close> that builds the record and puts it into the queue; it returns the
  record beside the state. \<open>enqueueCommand\<close> then sends when \<open>canSend\<close> holds.
\<close>

datatype compilation = CompileError | LogError "string list" | Compiled "string list"

definition sendRequest :: "(request \<Rightarrow> compilation) \<Rightarrow> client \<Rightarrow> client" where
  "sendRequest compiler st =
     (case clientQueue st of
        [] \<Rightarrow> enterIdle st
      | c # rest \<Rightarrow>
          let st1 = (clearIdle st)\<lparr>restartQueue := False\<rparr> in
          if precheck c then
            emit (st1\<lparr>clientQueue := c\<lparr>precheck := False\<rparr> # rest, restartQueue := True\<rparr>)
              (Precheck (cid c))
          else
            let st2 = st1\<lparr>canSend := False, currentCommand := Some c, clientQueue := rest\<rparr>
            in (case compiler (request c) of
                  CompileError \<Rightarrow> emit st2 OnError
                | LogError chunks \<Rightarrow>
                    emit (st2\<lparr>currentCommand := Some (c\<lparr>data := Some chunks\<rparr>)\<rparr>) OnError
                | Compiled chunks \<Rightarrow>
                    let chunk = (case chunks of [] \<Rightarrow> ''undefined'' | x # xs \<Rightarrow> x);
                        remaining = tl chunks
                    in send (st2\<lparr>currentCommand := Some (c\<lparr>data := Some remaining\<rparr>)\<rparr>)
                         (chunk @ (if remaining = [] then EOL else []))))"

fun indexOf :: "cmd list \<Rightarrow> nat \<Rightarrow> nat option" where
  "indexOf [] k = None"
| "indexOf (c # q) k = (if cid c = k then Some 0 else map_option Suc (indexOf q k))"

fun buckets :: "jstring list \<Rightarrow> payload" where
  "buckets [] = []"
| "buckets (c # cs) = (c, []) # filter (\<lambda>kv. fst kv \<noteq> c) (buckets cs)"

definition enqueue :: "client \<Rightarrow> request \<Rightarrow> jstring list \<Rightarrow> options \<Rightarrow> cmd \<times> client" where
  "enqueue st req acceptUntagged opts =
     (let accept = map (\<lambda>untagged. trim (toUpperCase untagged)) acceptUntagged;
          n = tagCounter st + 1;
          t = ''W'' @ decimal n;
          d = \<lparr>cid = n, tag = t, request = req\<lparr>q_tag := t\<rparr>,
               payload = (if accept = [] then None else Some (buckets accept)),
               data = None, precheck = o_precheck opts, ctx = o_ctx opts,
               errorResponseExpectsEmptyLine = o_errorResponseExpectsEmptyLine opts\<rparr>;
          index = (case ctx d of None \<Rightarrow> None | Some k \<Rightarrow> indexOf (clientQueue st) k);
          d' = (case index of
                  None \<Rightarrow> d
                | Some i \<Rightarrow> d\<lparr>tag := tag d @ ''.p'',
                              request := (request d)\<lparr>q_tag := q_tag (request d) @ ''.p''\<rparr>\<rparr>);
          queue = (case index of
                     None \<Rightarrow> clientQueue st @ [d']
                   | Some i \<Rightarrow> take i (clientQueue st) @ d' # drop i (clientQueue st))
      in (d', st\<lparr>tagCounter := n, clientQueue := queue\<rparr>))"

definition enqueueCommand ::
  "(request \<Rightarrow> compilation) \<Rightarrow> client \<Rightarrow> request \<Rightarrow> jstring list \<Rightarrow> options \<Rightarrow>
     cmd \<times> client" where
  "enqueueCommand compiler st req acceptUntagged opts =
     (case enqueue st req acceptUntagged opts of
        (d, st') \<Rightarrow> (d, if canSend st' then sendRequest compiler st' else st'))"

subsection \<open>The response router\<close>

text \<open>
  \<open>handleResponse\<close> is \<^verbatim>\<open>_handleResponse\<close>, branch by branch. Its first line is
  \<^verbatim>\<open>(response && response.command || '').toUpperCase().trim()\<close>, \<open>command_name\<close>, with no
  conversion to a string: on a command that the post-processing replaced by an array it
  throws, before anything is changed. \<open>parseIncomingCommand\<close> is
  the body of the loop of \<^verbatim>\<open>_parseIncomingCommands\<close> for one unit: it continues with the
  next unit, returns from the function (after a parse error), or throws.
  \<open>continuation\<close> is the branch for a unit that begins with \<open>+\<close>; \<open>js_typeof\<close> is the
  \<^verbatim>\<open>typeof\<close> of the option, a string, whose truth value the branch tests.
  \<open>parseIncomingCommands\<close> runs the loop over the units the generator yields, resuming the
  generator after each unit; \<open>parseAll\<close> is the same loop over a given list of units.
  \<open>precheckResolved\<close> and \<open>precheckRejected\<close> are the two handlers that \<^verbatim>\<open>_sendRequest\<close>
  attaches to the promise of a precheck, and \<open>tearDown\<close> is the one of \<^verbatim>\<open>close\<close>.
\<close>

definition push :: "payload \<Rightarrow> jstring \<Rightarrow> response \<Rightarrow> payload" where
  "push p name response =
     map (\<lambda>kv. if fst kv = name then (fst kv, snd kv @ [response]) else kv) p"

definition has_key :: "payload option \<Rightarrow> jstring \<Rightarrow> bool" where
  "has_key p name = (case p of None \<Rightarrow> False | Some kvs \<Rightarrow> name \<in> set (map fst kvs))"

definition attached :: "payload option \<Rightarrow> payload option" where
  "attached p = (case p of None \<Rightarrow> None | Some kvs \<Rightarrow> if kvs = [] then None else Some kvs)"

definition command_name :: "jsvalue \<Rightarrow> js_error + jstring" where
  "command_name v =
     (case v of
        Undefined \<Rightarrow> Inr []
      | Str s \<Rightarrow> Inr (trim (toUpperCase s))
      | Arr vs \<Rightarrow> Inl TypeError)"

definition handleResponse ::
  "(request \<Rightarrow> compilation) \<Rightarrow> client \<Rightarrow> response \<Rightarrow> js_error + client" where
  "handleResponse compiler st response =
     (case command_name (r_command response) of
        Inl e \<Rightarrow> Inl e
      | Inr name \<Rightarrow>
          Inr (case currentCommand st of
                 None \<Rightarrow>
                   if r_tag response = Str (js ''*'') \<and> name \<in> set (globalAcceptUntagged st)
                   then sendRequest compiler ((emit st (Handler name response))\<lparr>canSend := True\<rparr>)
                   else st
               | Some c \<Rightarrow>
                   if r_tag response = Str (js ''*'') \<and> has_key (payload c) name then
                     st\<lparr>currentCommand :=
                          Some (c\<lparr>payload :=
                                    map_option (\<lambda>p. push p name response) (payload c)\<rparr>)\<rparr>
                   else if r_tag response = Str (js ''*'') \<and> name \<in> set (globalAcceptUntagged st)
                   then sendRequest compiler ((emit st (Handler name response))\<lparr>canSend := True\<rparr>)
                   else if r_tag response = Str (js (tag c)) then
                     sendRequest compiler
                       ((emit st (Callback (cid c)
                           (callback (ResponseArg response (attached (payload c))))))
                          \<lparr>canSend := True\<rparr>)
                   else st))"

datatype 'a step = Continue 'a | Return 'a | Throw js_error 'a

definition js_typeof :: "bool option \<Rightarrow> string" where
  "js_typeof v = (case v of None \<Rightarrow> ''undefined'' | Some b \<Rightarrow> ''boolean'')"

definition continuation :: "client \<Rightarrow> client step" where
  "continuation st =
     (case currentCommand st of
        None \<Rightarrow> Throw TypeError st
      | Some c \<Rightarrow>
          (case data c of
             None \<Rightarrow> Throw TypeError st
           | Some [] \<Rightarrow>
               if js_typeof (errorResponseExpectsEmptyLine c) \<noteq> [] then Continue (send st EOL)
               else Continue st
           | Some (chunk # remaining) \<Rightarrow>
               Continue
                 (send (st\<lparr>currentCommand := Some (c\<lparr>data := Some remaining\<rparr>)\<rparr>)
                    (chunk @ (if remaining = [] then EOL else [])))))"

definition parseIncomingCommand ::
  "(string \<Rightarrow> response option) \<Rightarrow> (request \<Rightarrow> compilation) \<Rightarrow> client \<Rightarrow> string \<Rightarrow>
     client step" where
  "parseIncomingCommand parser compiler st raw =
     (let st1 = clearIdle st in
      if take 1 raw = ''+'' then continuation st1
      else
        (case parser raw of
           None \<Rightarrow> Return (emit st1 OnError)
         | Some response \<Rightarrow>
             (case processResponse response of
                Inl e \<Rightarrow> Throw e st1
              | Inr response' \<Rightarrow>
                  (case handleResponse compiler st1 response' of
                     Inl e \<Rightarrow> Throw e st1
                   | Inr st2 \<Rightarrow>
                       if \<not> connectionReady st2
                       then Continue (emit (st2\<lparr>connectionReady := True\<rparr>) OnReady)
                       else Continue st2))))"

function parseIncomingCommands ::
  "(string \<Rightarrow> response option) \<Rightarrow> (request \<Rightarrow> compilation) \<Rightarrow> client \<Rightarrow>
     js_error \<times> client + client" where
  "parseIncomingCommands parser compiler st =
     (case iterateIncomingBuffer (framing st) of
        (None, r) \<Rightarrow> Inr (st\<lparr>framing := r\<rparr>)
      | (Some raw, r) \<Rightarrow>
          (case parseIncomingCommand parser compiler (st\<lparr>framing := r\<rparr>) raw of
             Continue st' \<Rightarrow>
               parseIncomingCommands parser compiler
                 (st'\<lparr>framing := \<lparr>incomingBuffer = incomingBuffer r, command = [],
                                   literalRemaining = literalRemaining r\<rparr>\<rparr>)
           | Return st' \<Rightarrow> Inr st'
           | Throw e st' \<Rightarrow> Inl (e, st')))"
  by pat_completeness auto
termination
  by (relation "measure (\<lambda>(p, c, st). length (incomingBuffer (framing st)))")
     (auto dest: iterate_shrinks[OF sym])

declare parseIncomingCommands.simps [simp del]

definition onData ::
  "(string \<Rightarrow> response option) \<Rightarrow> (request \<Rightarrow> compilation) \<Rightarrow> client \<Rightarrow> string \<Rightarrow>
     js_error \<times> client + client" where
  "onData parser compiler st chunk =
     parseIncomingCommands parser compiler
       (st\<lparr>socketTimeoutTimer := None, framing := buffer_append (framing st) chunk\<rparr>)"

fun parseAll ::
  "(string \<Rightarrow> response option) \<Rightarrow> (request \<Rightarrow> compilation) \<Rightarrow> client \<Rightarrow> string list \<Rightarrow>
     client step" where
  "parseAll parser compiler st [] = Continue st"
| "parseAll parser compiler st (raw # raws) =
     (case parseIncomingCommand parser compiler st raw of
        Continue st' \<Rightarrow> parseAll parser compiler st' raws
      | Return st' \<Rightarrow> Return st'
      | Throw e st' \<Rightarrow> Throw e st')"

definition precheckResolved :: "(request \<Rightarrow> compilation) \<Rightarrow> client \<Rightarrow> client" where
  "precheckResolved compiler st = (if restartQueue st then sendRequest compiler st else st)"

definition precheckRejected :: "client \<Rightarrow> nat \<Rightarrow> error_object \<Rightarrow> client" where
  "precheckRejected st k err =
     (case indexOf (clientQueue st) k of
        None \<Rightarrow> st
      | Some i \<Rightarrow>
          emit (st\<lparr>clientQueue := take i (clientQueue st) @ drop (Suc i) (clientQueue st)\<rparr>)
            (Callback k (callback (ErrorArg err))))"

definition tearDown :: "client \<Rightarrow> client" where
  "tearDown st =
     st\<lparr>clientQueue := [], currentCommand := None, idleTimer := False,
        socketTimeoutTimer := None\<rparr>"

fun sends :: "event list \<Rightarrow> string list" where
  "sends [] = []"
| "sends (Send s # es) = s # sends es"
| "sends (e # es) = sends es"

definition sent :: "client \<Rightarrow> string list" where
  "sent st = sends (events st)"


subsection \<open>The reader inside the client\<close>

text \<open>
  The handling of a unit neither reads nor writes the reader's fields, so the loop of
  \<^verbatim>\<open>_parseIncomingCommands\<close> over the generator handles exactly the units that the drained
  reader emits for the chunk, as long as every unit is handled to its end.
\<close>

lemma sendRequest_framing:
  "sendRequest compiler (st\<lparr>framing := r\<rparr>) = (sendRequest compiler st)\<lparr>framing := r\<rparr>"
  by (simp add: sendRequest_def enterIdle_def clearIdle_def emit_def send_def Let_def
      split: list.splits compilation.splits)

lemma handleResponse_framing:
  "handleResponse compiler (st\<lparr>framing := r\<rparr>) response =
     map_sum id (\<lambda>s. s\<lparr>framing := r\<rparr>) (handleResponse compiler st response)"
proof -
  have e: "\<And>x. (emit (st\<lparr>framing := r\<rparr>) x)\<lparr>canSend := True\<rparr> =
      ((emit st x)\<lparr>canSend := True\<rparr>)\<lparr>framing := r\<rparr>"
    by (simp add: emit_def)
  show ?thesis
    by (auto simp: handleResponse_def Let_def e sendRequest_framing split: option.splits sum.splits)
qed

lemma parseIncomingCommand_framing:
  "parseIncomingCommand parser compiler (st\<lparr>framing := r\<rparr>) raw =
     map_step (\<lambda>s. s\<lparr>framing := r\<rparr>) (parseIncomingCommand parser compiler st raw)"
proof -
  have c: "clearIdle (st\<lparr>framing := r\<rparr>) = (clearIdle st)\<lparr>framing := r\<rparr>"
    by (simp add: clearIdle_def)
  have k: "\<And>s. continuation (s\<lparr>framing := r\<rparr>) = map_step (\<lambda>s. s\<lparr>framing := r\<rparr>) (continuation s)"
    by (simp add: continuation_def send_def emit_def split: option.splits list.splits)
  have e: "\<And>s x. emit (s\<lparr>framing := r\<rparr>) x = (emit s x)\<lparr>framing := r\<rparr>"
    by (simp add: emit_def)
  have e2: "\<And>s x. emit (s\<lparr>framing := r, connectionReady := True\<rparr>) x
      = (emit (s\<lparr>connectionReady := True\<rparr>) x)\<lparr>framing := r\<rparr>"
    by (simp add: emit_def)
  show ?thesis
  proof (cases "take 1 raw = ''+''")
    case True
    then show ?thesis by (simp add: parseIncomingCommand_def c k)
  next
    case plain: False
    show ?thesis
    proof (cases "parser raw")
      case None
      with plain show ?thesis by (simp add: parseIncomingCommand_def c e)
    next
      case (Some response)
      show ?thesis
      proof (cases "processResponse response")
        case (Inl err)
        with plain Some show ?thesis by (simp add: parseIncomingCommand_def c)
      next
        case processed: (Inr response')
        show ?thesis
        proof (cases "handleResponse compiler (clearIdle st) response'")
          case (Inl err)
          with plain Some processed show ?thesis
            by (simp add: parseIncomingCommand_def c handleResponse_framing)
        next
          case (Inr st2)
          with plain Some processed show ?thesis
            by (simp add: parseIncomingCommand_def c e2 handleResponse_framing)
        qed
      qed
    qed
  qed
qed

lemma parseAll_framing:
  "parseAll parser compiler (st\<lparr>framing := r\<rparr>) raws =
     map_step (\<lambda>s. s\<lparr>framing := r\<rparr>) (parseAll parser compiler st raws)"
proof (induction raws arbitrary: st)
  case Nil
  then show ?case by simp
next
  case (Cons raw raws)
  show ?case
  proof (cases "parseIncomingCommand parser compiler st raw")
    case (Continue s)
    with Cons[of s] show ?thesis by (simp add: parseIncomingCommand_framing)
  next
    case (Return s)
    then show ?thesis by (simp add: parseIncomingCommand_framing)
  next
    case (Throw e s)
    then show ?thesis by (simp add: parseIncomingCommand_framing)
  qed
qed

lemma parseIncomingCommands_drain:
  assumes "drain (framing st) = (units, r)"
    and "parseAll parser compiler st units = Continue st'"
  shows "parseIncomingCommands parser compiler st = Inr (st'\<lparr>framing := r\<rparr>)"
  using assms
proof (induction "length (incomingBuffer (framing st))" arbitrary: st units st' r rule: less_induct)
  case less
  obtain x r1 where it: "iterateIncomingBuffer (framing st) = (x, r1)"
    by (cases "iterateIncomingBuffer (framing st)")
  show ?case
  proof (cases x)
    case None
    with it less.prems(1) have "units = []" "r = r1" by (simp_all add: drain.simps[of "framing st"])
    moreover have "parseIncomingCommands parser compiler st = Inr (st\<lparr>framing := r1\<rparr>)"
      using it None by (simp add: parseIncomingCommands.simps[of _ _ st])
    ultimately show ?thesis using less.prems(2) by simp
  next
    case (Some raw)
    let ?r = "\<lparr>incomingBuffer = incomingBuffer r1, command = [],
                literalRemaining = literalRemaining r1\<rparr>"
    obtain us r2 where d: "drain ?r = (us, r2)" by (cases "drain ?r")
    with it Some less.prems(1) have u: "units = raw # us" "r = r2"
      by (simp_all add: drain.simps[of "framing st"])
    from less.prems(2) u obtain s1 where p: "parseIncomingCommand parser compiler st raw = Continue s1"
      and pa: "parseAll parser compiler s1 us = Continue st'"
      by (auto split: step.splits)
    from p have p': "parseIncomingCommand parser compiler (st\<lparr>framing := r1\<rparr>) raw =
        Continue (s1\<lparr>framing := r1\<rparr>)"
      by (simp add: parseIncomingCommand_framing)
    let ?s = "s1\<lparr>framing := ?r\<rparr>"
    have lt: "length (incomingBuffer (framing ?s)) < length (incomingBuffer (framing st))"
      using iterate_shrinks[of "framing st" raw r1] it Some by simp
    have d': "drain (framing ?s) = (us, r2)" using d by simp
    have pa': "parseAll parser compiler ?s us = Continue (st'\<lparr>framing := ?r\<rparr>)"
      using pa by (simp add: parseAll_framing)
    have "parseIncomingCommands parser compiler st = parseIncomingCommands parser compiler ?s"
      using it Some p' by (simp add: parseIncomingCommands.simps[of _ _ st])
    with less.hyps[OF lt d' pa'] u show ?thesis by simp
  qed
qed

lemma onData_receive:
  assumes "receive (framing st) chunk = (units, r)"
    and "parseAll parser compiler (st\<lparr>socketTimeoutTimer := None\<rparr>) units = Continue st'"
  shows "onData parser compiler st chunk = Inr (st'\<lparr>framing := r\<rparr>)"
proof -
  let ?st = "st\<lparr>socketTimeoutTimer := None, framing := buffer_append (framing st) chunk\<rparr>"
  have d: "drain (framing ?st) = (units, r)" using assms(1) by (simp add: receive_def)
  have "parseAll parser compiler ?st units =
      Continue (st'\<lparr>framing := buffer_append (framing st) chunk\<rparr>)"
    using assms(2)
      parseAll_framing[where st = "st\<lparr>socketTimeoutTimer := None\<rparr>"
        and r = "buffer_append (framing st) chunk" and raws = units]
    by simp
  from parseIncomingCommands_drain[OF d this] show ?thesis by (simp add: onData_def)
qed

subsection \<open>Continuation prompts and chunked sends\<close>

lemma sends_append [simp]: "sends (xs @ ys) = sends xs @ sends ys"
  by (induction xs rule: sends.induct) simp_all

lemma sent_send [simp]: "sent (send st s) = sent st @ [s]"
  by (simp add: sent_def send_def emit_def)

lemma sent_clearIdle [simp]: "sent (clearIdle st) = sent st"
  by (simp add: sent_def clearIdle_def)

lemma currentCommand_send [simp]: "currentCommand (send st s) = currentCommand st"
  by (simp add: send_def emit_def)

lemma currentCommand_clearIdle [simp]: "currentCommand (clearIdle st) = currentCommand st"
  by (simp add: clearIdle_def)

text \<open>
  Claim C10. A unit that begins with \<open>+\<close> is handled by reading \<^verbatim>\<open>this._currentCommand.data.length\<close>
  with no guard: when no command is current (\<^verbatim>\<open>_currentCommand\<close> is \<^verbatim>\<open>false\<close>) the read of
  \<^verbatim>\<open>.length\<close> on \<^verbatim>\<open>undefined\<close> throws a TypeError, so the prompt is not ignored.
\<close>

theorem continuation_without_command:
  assumes "take 1 raw = ''+''" "currentCommand st = None"
  shows "parseIncomingCommand parser compiler st raw = Throw TypeError (clearIdle st)"
  using assms by (simp add: parseIncomingCommand_def continuation_def)

theorem continuation_without_command_witness:
  "take 1 ''+ go'' = ''+'' \<and> currentCommand new_client = None \<and>
   parseIncomingCommand (\<lambda>raw. None) (\<lambda>req. CompileError) new_client ''+ go'' =
     Throw TypeError (clearIdle new_client) \<and>
   (case onData (\<lambda>raw. None) (\<lambda>req. CompileError) new_client (''+ go'' @ EOL) of
      Inl (e, st) \<Rightarrow> e = TypeError | Inr st \<Rightarrow> False)"
proof -
  have h: "take 1 ''+ go'' = ''+''" "currentCommand new_client = None"
    by (simp_all add: new_client_def)
  have l: "case onData (\<lambda>raw. None) (\<lambda>req. CompileError) new_client (''+ go'' @ EOL) of
      Inl (e, st) \<Rightarrow> e = TypeError | Inr st \<Rightarrow> False"
    by code_simp
  from continuation_without_command[OF h, of "\<lambda>raw. None" "\<lambda>req. CompileError"] h l
  show ?thesis by blast
qed

definition wire_chunks :: "string list \<Rightarrow> string list" where
  "wire_chunks chunks = butlast chunks @ [last chunks @ EOL]"

lemma continuation_chunk:
  assumes "take 1 raw = ''+''" "currentCommand st = Some c" "data c = Some (chunk # remaining)"
  shows "parseIncomingCommand parser compiler st raw =
           Continue (send ((clearIdle st)\<lparr>currentCommand := Some (c\<lparr>data := Some remaining\<rparr>)\<rparr>)
                       (chunk @ (if remaining = [] then EOL else [])))"
  using assms by (simp add: parseIncomingCommand_def continuation_def)

lemma prompts_send_remaining:
  assumes "currentCommand st = Some c" "data c = Some ds" "length prompts \<le> length ds"
    "list_all (\<lambda>raw. take 1 raw = ''+'') prompts"
  shows "\<exists>st' c'. parseAll parser compiler st prompts = Continue st' \<and>
           currentCommand st' = Some c' \<and> data c' = Some (drop (length prompts) ds) \<and>
           sent st' = sent st @ take (length prompts) (if ds = [] then [] else wire_chunks ds)"
  using assms
proof (induction prompts arbitrary: st c ds)
  case Nil
  then show ?case by simp
next
  case (Cons raw prompts)
  from Cons.prems(3) obtain chunk remaining where ds: "ds = chunk # remaining"
    by (cases ds) auto
  let ?st = "send ((clearIdle st)\<lparr>currentCommand := Some (c\<lparr>data := Some remaining\<rparr>)\<rparr>)
               (chunk @ (if remaining = [] then EOL else []))"
  from Cons.prems have step: "parseIncomingCommand parser compiler st raw = Continue ?st"
    using continuation_chunk[of raw st c chunk remaining] ds by simp
  have cur: "currentCommand ?st = Some (c\<lparr>data := Some remaining\<rparr>)" by simp
  have len: "length prompts \<le> length remaining" using Cons.prems(3) ds by simp
  have all: "list_all (\<lambda>raw. take 1 raw = ''+'') prompts" using Cons.prems(4) by simp
  have dd: "data (c\<lparr>data := Some remaining\<rparr>) = Some remaining" by simp
  from Cons.IH[OF cur dd len all]
  obtain st' c' where r: "parseAll parser compiler ?st prompts = Continue st'"
    "currentCommand st' = Some c'" "data c' = Some (drop (length prompts) remaining)"
    "sent st' = sent ?st @ take (length prompts) (if remaining = [] then [] else wire_chunks remaining)"
    by auto
  have s: "sent ?st = sent st @ [chunk @ (if remaining = [] then EOL else [])]"
    by (simp add: sent_def send_def emit_def clearIdle_def)
  have w: "wire_chunks (chunk # remaining) =
      (chunk @ (if remaining = [] then EOL else [])) # (if remaining = [] then [] else wire_chunks remaining)"
    by (simp add: wire_chunks_def)
  show ?case using step r s w ds by simp
qed

lemma sendRequest_dispatch:
  assumes "clientQueue st = c # rest" "\<not> precheck c" "compiler (request c) = Compiled (chunk # remaining)"
  shows "sendRequest compiler st =
           send ((clearIdle st)\<lparr>restartQueue := False, canSend := False,
                   currentCommand := Some (c\<lparr>data := Some remaining\<rparr>), clientQueue := rest\<rparr>)
             (chunk @ (if remaining = [] then EOL else []))"
  using assms by (simp add: sendRequest_def send_def emit_def clearIdle_def)

text \<open>
  Claim C7. Each transmitted chunk of a command's compiled data carries the line end if and
  only if it is the last one: the dispatch sends the first chunk alone, every further chunk
  is sent by one continuation prompt, and after \<open>k\<close> prompts exactly the first \<open>k + 1\<close>
  chunks have been sent, the last chunk followed by CRLF and no other.
\<close>

theorem chunks_end_with_eol:
  assumes "clientQueue st = c # rest" "\<not> precheck c" "compiler (request c) = Compiled chunks"
    "chunks \<noteq> []" "length prompts < length chunks"
    "list_all (\<lambda>raw. take 1 raw = ''+'') prompts"
  shows "sent (sendRequest compiler st) = sent st @ take 1 (wire_chunks chunks) \<and>
         (\<exists>st'. parseAll parser compiler (sendRequest compiler st) prompts = Continue st' \<and>
            sent st' = sent st @ take (Suc (length prompts)) (wire_chunks chunks))"
proof -
  from assms(4) obtain chunk remaining where ch: "chunks = chunk # remaining"
    by (cases chunks) auto
  let ?c = "c\<lparr>data := Some remaining\<rparr>"
  let ?st = "send ((clearIdle st)\<lparr>restartQueue := False, canSend := False,
                   currentCommand := Some ?c, clientQueue := rest\<rparr>)
             (chunk @ (if remaining = [] then EOL else []))"
  have d: "sendRequest compiler st = ?st"
    using assms(1-3) ch by (simp add: sendRequest_dispatch)
  have s: "sent ?st = sent st @ [chunk @ (if remaining = [] then EOL else [])]"
    by (simp add: sent_def send_def emit_def clearIdle_def)
  have w: "wire_chunks (chunk # remaining) =
      (chunk @ (if remaining = [] then EOL else [])) # (if remaining = [] then [] else wire_chunks remaining)"
    by (simp add: wire_chunks_def)
  have cur: "currentCommand ?st = Some ?c" by simp
  have len: "length prompts \<le> length remaining" using assms(5) ch by simp
  have dd: "data ?c = Some remaining" by simp
  from prompts_send_remaining[OF cur dd len assms(6), of parser compiler]
  obtain st' where "parseAll parser compiler ?st prompts = Continue st'"
    "sent st' = sent ?st @ take (length prompts) (if remaining = [] then [] else wire_chunks remaining)"
    by auto
  then show ?thesis using d s w ch by simp
qed

theorem chunks_end_with_eol_witness:
  "sent (sendRequest (\<lambda>r. Compiled [''A'', ''B''])
      (new_client\<lparr>clientQueue :=
         [\<lparr>cid = 1, tag = ''W1'', request = \<lparr>q_command = ''APPEND'', q_tag = ''W1''\<rparr>,
           payload = None, data = None, precheck = False, ctx = None,
           errorResponseExpectsEmptyLine = None\<rparr>]\<rparr>)) = [''A''] \<and>
   (\<exists>st'. parseAll (\<lambda>raw. None) (\<lambda>r. Compiled [''A'', ''B''])
      (sendRequest (\<lambda>r. Compiled [''A'', ''B''])
        (new_client\<lparr>clientQueue :=
         [\<lparr>cid = 1, tag = ''W1'', request = \<lparr>q_command = ''APPEND'', q_tag = ''W1''\<rparr>,
           payload = None, data = None, precheck = False, ctx = None,
           errorResponseExpectsEmptyLine = None\<rparr>]\<rparr>)) [''+ go''] = Continue st' \<and>
      sent st' = [''A'', ''B'' @ EOL])"
proof -
  let ?c = "\<lparr>cid = 1, tag = ''W1'', request = \<lparr>q_command = ''APPEND'', q_tag = ''W1''\<rparr>,
           payload = None, data = None, precheck = False, ctx = None,
           errorResponseExpectsEmptyLine = None\<rparr>"
  let ?st = "new_client\<lparr>clientQueue := [?c]\<rparr>"
  have h: "clientQueue ?st = ?c # []" "\<not> precheck ?c"
    "(\<lambda>r. Compiled [''A'', ''B'']) (request ?c) = Compiled [''A'', ''B'']" "[''A'', ''B''] \<noteq> []"
    "length [''+ go''] < length [''A'', ''B'']"
    "list_all (\<lambda>raw. take 1 raw = ''+'') [''+ go'']"
    by simp_all
  have s0: "sent ?st = []" by (simp add: sent_def new_client_def)
  from chunks_end_with_eol[OF h, of "\<lambda>raw. None"] s0
  show ?thesis by (simp add: wire_chunks_def)
qed

subsection \<open>Priority insertion\<close>

definition no_options :: options where
  "no_options = \<lparr>o_ctx = None, o_precheck = False, o_errorResponseExpectsEmptyLine = None\<rparr>"

lemma indexOf_Some:
  "indexOf q k = Some i \<Longrightarrow> i < length q \<and> cid (q ! i) = k"
proof (induction q arbitrary: i)
  case Nil
  then show ?case by simp
next
  case (Cons c q)
  show ?case
  proof (cases "cid c = k")
    case True
    with Cons.prems show ?thesis by simp
  next
    case False
    with Cons.prems obtain j where "indexOf q k = Some j" "i = Suc j" by auto
    with Cons.IH[of j] show ?thesis by simp
  qed
qed

text \<open>
  Claim C4, as the code has it. When \<open>options.ctx\<close> is a command still in the queue, the new
  record is inserted immediately before it, and the two tags that receive the suffix \<open>.p\<close>
  are those of the new command: the tag of its record and the tag of its request, both
  \<open>W<n>.p\<close>. The anchor is moved one place back and is otherwise untouched: its tag keeps
  no suffix.
\<close>

theorem priority_insertion:
  assumes "o_ctx opts = Some k" "indexOf (clientQueue st) k = Some i"
    and "enqueue st req acceptUntagged opts = (d, st')"
  shows "clientQueue st' = take i (clientQueue st) @ d # drop i (clientQueue st) \<and>
         tag d = ''W'' @ decimal (tagCounter st + 1) @ ''.p'' \<and>
         q_tag (request d) = ''W'' @ decimal (tagCounter st + 1) @ ''.p'' \<and>
         clientQueue st' ! i = d \<and>
         clientQueue st' ! Suc i = clientQueue st ! i \<and>
         cid (clientQueue st ! i) = k"
proof -
  note ix = indexOf_Some[OF assms(2)]
  from assms have q: "clientQueue st' = take i (clientQueue st) @ d # drop i (clientQueue st)"
    and t: "tag d = ''W'' @ decimal (tagCounter st + 1) @ ''.p''"
      "q_tag (request d) = ''W'' @ decimal (tagCounter st + 1) @ ''.p''"
    by (auto simp: enqueue_def Let_def)
  have l: "length (take i (clientQueue st)) = i" using ix by simp
  have "clientQueue st' ! i = d" unfolding q using l by (metis nth_append_length)
  moreover have "clientQueue st' ! Suc i = clientQueue st ! i"
  proof -
    have "(take i (clientQueue st) @ d # drop i (clientQueue st)) ! (i + 1)
        = (d # drop i (clientQueue st)) ! 1"
      using l by (metis nth_append_length_plus)
    also have "\<dots> = clientQueue st ! i" using ix by (simp add: hd_drop_conv_nth hd_conv_nth)
    finally show ?thesis unfolding q by simp
  qed
  ultimately show ?thesis using q t ix by simp
qed

definition three_queued :: client where
  "three_queued =
     snd (enqueue (snd (enqueue (snd (enqueue new_client
       \<lparr>q_command = ''NOOP'', q_tag = []\<rparr> [] no_options))
       \<lparr>q_command = ''LIST'', q_tag = []\<rparr> [] no_options))
       \<lparr>q_command = ''FETCH'', q_tag = []\<rparr> [] no_options)"

text \<open>
  Three commands are queued on a fresh client (nothing is sent before the greeting), then
  SELECT is queued with the third of them as its \<open>ctx\<close>: the new record goes before the
  anchor with tag \<open>W4.p\<close>, and the anchor keeps the tag \<open>W3\<close>.
\<close>

definition select_first :: "cmd \<times> client" where
  "select_first =
     enqueue three_queued \<lparr>q_command = ''SELECT'', q_tag = []\<rparr> []
       (no_options\<lparr>o_ctx := Some 3\<rparr>)"

theorem anchor_tag_not_suffixed:
  "clientQueue three_queued ! 2 =
     \<lparr>cid = 3, tag = ''W3'', request = \<lparr>q_command = ''FETCH'', q_tag = ''W3''\<rparr>,
      payload = None, data = None, precheck = False, ctx = None,
      errorResponseExpectsEmptyLine = None\<rparr> \<and>
   map tag (clientQueue (snd select_first)) = [''W1'', ''W2'', ''W4.p'', ''W3''] \<and>
   tag (clientQueue (snd select_first) ! 3) \<noteq> ''W3.p''"
  by code_simp

theorem priority_insertion_witness:
  "o_ctx (no_options\<lparr>o_ctx := Some 3\<rparr>) = Some 3 \<and>
   indexOf (clientQueue three_queued) 3 = Some 2 \<and>
   clientQueue (snd select_first) =
     take 2 (clientQueue three_queued) @ fst select_first # drop 2 (clientQueue three_queued) \<and>
   tag (fst select_first) = ''W'' @ decimal (tagCounter three_queued + 1) @ ''.p'' \<and>
   q_tag (request (fst select_first)) = ''W'' @ decimal (tagCounter three_queued + 1) @ ''.p'' \<and>
   clientQueue (snd select_first) ! 2 = fst select_first \<and>
   clientQueue (snd select_first) ! Suc 2 = clientQueue three_queued ! 2 \<and>
   cid (clientQueue three_queued ! 2) = 3"
proof -
  have h: "o_ctx (no_options\<lparr>o_ctx := Some 3\<rparr>) = Some 3"
    "indexOf (clientQueue three_queued) 3 = Some 2"
    by code_simp+
  have e: "enqueue three_queued \<lparr>q_command = ''SELECT'', q_tag = []\<rparr> []
      (no_options\<lparr>o_ctx := Some 3\<rparr>) = (fst select_first, snd select_first)"
    by (simp add: select_first_def)
  from priority_insertion[OF h e] h show ?thesis by blast
qed


subsection \<open>Completion of a command\<close>

lemma sendRequest_events: "\<exists>es. events (sendRequest compiler st) = events st @ es"
  by (auto simp: sendRequest_def enterIdle_def clearIdle_def emit_def send_def Let_def
      split: list.splits compilation.splits)

lemma sendRequest_empty:
  "clientQueue st = [] \<Longrightarrow> sendRequest compiler st = enterIdle st"
  by (simp add: sendRequest_def)

lemma attached_iff: "attached p = Some kvs \<longleftrightarrow> p = Some kvs \<and> kvs \<noteq> []"
  by (auto simp: attached_def split: option.splits if_splits)

lemma handleResponse_tagged:
  assumes "currentCommand st = Some c" "r_tag response = Str (js (tag c))"
    "r_tag response \<noteq> Str (js ''*'')" "\<forall>vs. r_command response \<noteq> Arr vs"
  shows "handleResponse compiler st response =
           Inr (sendRequest compiler
             ((emit st (Callback (cid c)
                 (callback (ResponseArg response (attached (payload c))))))\<lparr>canSend := True\<rparr>))"
proof -
  from assms(4) obtain name where "command_name (r_command response) = Inr name"
    by (cases "r_command response") (simp_all add: command_name_def)
  with assms(1-3) show ?thesis by (simp add: handleResponse_def)
qed




text \<open>
  Claim C2, as the code has it. When the response carries the tag of the current command,
  the router attaches the command's payload to the response if and only if the payload has
  at least one bucket (that is, the command was queued with at least one name to accept),
  whether or not any response was collected in it; it invokes the command's callback once
  with the response, sets \<open>canSend\<close> and calls the sender. When the queue is empty the
  sender only arms the idle timer, and the state keeps \<open>canSend\<close> set. The command of the
  response is a string, as the parser gives it, or absent.
\<close>

theorem tagged_completion:
  assumes "currentCommand st = Some c" "r_tag response = Str (js (tag c))"
    "r_tag response \<noteq> Str (js ''*'')" "\<forall>vs. r_command response \<noteq> Arr vs"
  shows "\<exists>st'. handleResponse compiler st response = Inr st' \<and>
         st' = sendRequest compiler
             ((emit st (Callback (cid c)
                 (callback (ResponseArg response (attached (payload c))))))\<lparr>canSend := True\<rparr>) \<and>
         (\<exists>es. events st' =
            events st @ Callback (cid c)
              (callback (ResponseArg response (attached (payload c)))) # es) \<and>
         (attached (payload c) = payload c \<longleftrightarrow> payload c \<noteq> Some []) \<and>
         (attached (payload c) = None \<longleftrightarrow> payload c = None \<or> payload c = Some []) \<and>
         (if clientQueue st = []
          then canSend st' \<and> idleTimer st' \<and>
               events st' =
                 events st @ [Callback (cid c)
                   (callback (ResponseArg response (attached (payload c))))]
          else True)"
proof -
  let ?cb = "Callback (cid c) (callback (ResponseArg response (attached (payload c))))"
  let ?st = "(emit st ?cb)\<lparr>canSend := True\<rparr>"
  have eq: "handleResponse compiler st response = Inr (sendRequest compiler ?st)"
    using assms by (rule handleResponse_tagged)
  from sendRequest_events[of compiler ?st]
  obtain es where "events (sendRequest compiler ?st) = events ?st @ es" by blast
  then have ev: "\<exists>es. events (sendRequest compiler ?st) = events st @ ?cb # es"
    by (simp add: emit_def)
  have a1: "attached (payload c) = payload c \<longleftrightarrow> payload c \<noteq> Some []"
    by (auto simp: attached_def split: option.splits)
  have a2: "attached (payload c) = None \<longleftrightarrow> payload c = None \<or> payload c = Some []"
    by (auto simp: attached_def split: option.splits)
  have e: "clientQueue st = [] \<Longrightarrow>
      canSend (sendRequest compiler ?st) \<and> idleTimer (sendRequest compiler ?st) \<and>
      events (sendRequest compiler ?st) = events st @ [?cb]"
    by (simp add: sendRequest_def enterIdle_def emit_def)
  show ?thesis using eq ev a1 a2 e by simp
qed

subsection \<open>A session against a scripted server\<close>

text \<open>
  The codec is outside the client: \<open>example_parser\<close> gives, for the few lines the scripted
  server sends, the structure the IMAP parser returns for them, and \<open>example_compiler\<close>
  compiles a request without literals into its single chunk. \<open>greeted\<close> is a client with
  global handlers for OK and EXISTS after the server's greeting.
\<close>

definition parsed :: "string \<Rightarrow> string \<Rightarrow> attribute list \<Rightarrow> response" where
  "parsed t name attrs =
     \<lparr>r_tag = Str (js t), r_command = Str (js name), attributes = attrs, nr = None,
      humanReadable = None, code = Undefined, properties = []\<rparr>"

definition bracketed :: "string list \<Rightarrow> attribute" where
  "bracketed names = Node ''ATOM'' (Some []) (Some (map (\<lambda>n. KeyNode (Some (js n))) names))"

definition example_parser :: "string \<Rightarrow> response option" where
  "example_parser raw =
     (if raw = ''* OK ready''
        then Some (parsed ''*'' ''OK'' [Node ''TEXT'' (Some (js ''ready'')) None])
      else if raw = ''* 1 EXISTS''
        then Some (parsed ''*'' ''1'' [Node ''ATOM'' (Some (js ''EXISTS'')) None])
      else if raw = ''W1 OK done''
        then Some (parsed ''W1'' ''OK'' [Node ''TEXT'' (Some (js ''done'')) None])
      else if raw = ''W2 NO [ALERT] bad mailbox''
        then Some (parsed ''W2'' ''NO''
               [bracketed [''ALERT''], Node ''TEXT'' (Some (js ''bad mailbox'')) None])
      else if raw = ''W2 no [alert] bad mailbox''
        then Some (parsed ''W2'' ''no''
               [bracketed [''alert''], Node ''TEXT'' (Some (js ''bad mailbox'')) None])
      else if raw = ''W2 NO [ALERT]''
        then Some (parsed ''W2'' ''NO'' [bracketed [''ALERT'']])
      else if raw = ''W2 NO [CODE x] y''
        then Some (parsed ''W2'' ''NO''
               [bracketed [''CODE'', ''x''], Node ''TEXT'' (Some (js ''y'')) None])
      else if raw = ''W2 NO [COMMAND OK] failed''
        then Some (parsed ''W2'' ''NO''
               [bracketed [''COMMAND'', ''OK''], Node ''TEXT'' (Some (js ''failed'')) None])
      else if raw = ''W2 NO [TAG x] failed''
        then Some (parsed ''W2'' ''NO''
               [bracketed [''TAG'', ''x''], Node ''TEXT'' (Some (js ''failed'')) None])
      else if raw = ''W2 NO [COMMAND a b] failed''
        then Some (parsed ''W2'' ''NO''
               [bracketed [''COMMAND'', ''a'', ''b''], Node ''TEXT'' (Some (js ''failed'')) None])
      else None)"

definition example_compiler :: "request \<Rightarrow> compilation" where
  "example_compiler req = Compiled [q_tag req @ '' '' @ q_command req]"

definition after :: "js_error \<times> client + client \<Rightarrow> client" where
  "after r = (case r of Inl (e, st) \<Rightarrow> st | Inr st \<Rightarrow> st)"

fun callbacks :: "event list \<Rightarrow> (nat \<times> settlement) list" where
  "callbacks [] = []"
| "callbacks (Callback k s # es) = (k, s) # callbacks es"
| "callbacks (e # es) = callbacks es"

definition greeted :: client where
  "greeted =
     after (onData example_parser example_compiler
       (setHandler (setHandler new_client (js ''ok'')) (js ''exists'')) (''* OK ready'' @ EOL))"

definition noop_in_flight :: client where
  "noop_in_flight =
     snd (enqueueCommand example_compiler greeted \<lparr>q_command = ''NOOP'', q_tag = []\<rparr> []
       no_options)"

definition list_queued :: client where
  "list_queued =
     snd (enqueueCommand example_compiler noop_in_flight \<lparr>q_command = ''LIST'', q_tag = []\<rparr> []
       no_options)"

definition capability_in_flight :: client where
  "capability_in_flight =
     snd (enqueueCommand example_compiler greeted \<lparr>q_command = ''CAPABILITY'', q_tag = []\<rparr>
       [js ''capability''] no_options)"

definition exists_arrives :: client where
  "exists_arrives =
     after (onData example_parser example_compiler noop_in_flight (''* 1 EXISTS'' @ EOL))"

definition exists_overtakes :: client where
  "exists_overtakes =
     after (onData example_parser example_compiler list_queued (''* 1 EXISTS'' @ EOL))"

definition completion_lost :: client where
  "completion_lost =
     after (onData example_parser example_compiler exists_overtakes (''W1 OK done'' @ EOL))"

definition capability_done :: client where
  "capability_done =
     after (onData example_parser example_compiler capability_in_flight
       (''W1 OK done'' @ EOL))"

definition prompt_arrives :: client where
  "prompt_arrives =
     after (onData example_parser example_compiler noop_in_flight (''+ go'' @ EOL))"

definition list_in_flight :: client where
  "list_in_flight =
     after (onData example_parser example_compiler list_queued (''W1 OK done'' @ EOL))"

definition completes :: "string \<Rightarrow> js_error option \<times> (nat \<times> settlement) list" where
  "completes line =
     (case onData example_parser example_compiler list_in_flight (line @ EOL) of
        Inl (e, st) \<Rightarrow> (Some e, callbacks (events st))
      | Inr st \<Rightarrow> (None, callbacks (events st)))"

definition ok_done :: response where
  "ok_done =
     (parsed ''W1'' ''OK'' [Node ''TEXT'' (Some (js ''done'')) None])
       \<lparr>humanReadable := Some (js ''done'')\<rparr>"



text \<open>
  Claim C1 at a concrete session. NOOP (W1) is in flight and \<open>canSend\<close> is false. The
  server sends \<open>* 1 EXISTS\<close>, which NOOP did not ask to collect, so the router hands it to
  the global handler, and then sets \<open>canSend\<close> and calls the sender although W1 is still
  waiting for its completion. With an empty queue the flag stays set beside the command in
  flight; with LIST (W2) queued the sender dispatches W2 over W1, and the completion
  \<open>W1 OK done\<close> that follows matches no current tag: W1's callback is never invoked.
\<close>

theorem unclaimed_untagged_reopens_sending:
  "canSend noop_in_flight = False \<and>
   map_option tag (currentCommand noop_in_flight) = Some ''W1'' \<and>
   canSend exists_arrives = True \<and>
   map_option tag (currentCommand exists_arrives) = Some ''W1'' \<and>
   callbacks (events exists_arrives) = [] \<and>
   sent exists_overtakes = [''W1 NOOP'' @ EOL, ''W2 LIST'' @ EOL] \<and>
   map_option tag (currentCommand exists_overtakes) = Some ''W2'' \<and>
   callbacks (events completion_lost) = []"
  by code_simp

text \<open>
  Claim C2 at a concrete session. CAPABILITY (W1) was queued to collect untagged CAPABILITY
  responses; the server completes it without sending one. The payload, whose only bucket is
  empty, is attached to the response all the same, and the router leaves the completed
  command in \<open>currentCommand\<close>.
\<close>

theorem payload_attached_with_empty_bucket:
  "callbacks (events capability_done) =
     [(1, Resolved
        \<lparr>r_tag = Str (js ''W1''), r_command = Str (js ''OK''),
         attributes = [Node ''TEXT'' (Some (js ''done'')) None],
         nr = None, humanReadable = Some (js ''done''), code = Undefined, properties = []\<rparr>
        (Some [(js ''CAPABILITY'', [])]))] \<and>
   map_option tag (currentCommand capability_done) = Some ''W1'' \<and>
   currentCommand capability_done \<noteq> None"
  by code_simp

text \<open>
  Claim C5 at a concrete session. NOOP (W1) is in flight, its single chunk is sent and it
  was queued without the option \<open>errorResponseExpectsEmptyLine\<close>. A continuation prompt
  arrives: the test \<^verbatim>\<open>typeof this._currentCommand.errorResponseExpectsEmptyLine\<close> is the
  non-empty string \<^verbatim>\<open>'undefined'\<close>, which is truthy, and the client sends a bare CRLF.
\<close>

theorem empty_line_sent_without_option:
  "map_option errorResponseExpectsEmptyLine (currentCommand noop_in_flight) = Some None \<and>
   map_option data (currentCommand noop_in_flight) = Some (Some []) \<and>
   sent noop_in_flight = [''W1 NOOP'' @ EOL] \<and>
   sent prompt_arrives = [''W1 NOOP'' @ EOL, EOL]"
  by code_simp

theorem tagged_completion_witness:
  "currentCommand capability_in_flight =
     Some \<lparr>cid = 1, tag = ''W1'', request = \<lparr>q_command = ''CAPABILITY'', q_tag = ''W1''\<rparr>,
           payload = Some [(js ''CAPABILITY'', [])], data = Some [], precheck = False,
           ctx = None, errorResponseExpectsEmptyLine = None\<rparr> \<and>
   (\<exists>st'. handleResponse example_compiler capability_in_flight
             (parsed ''W1'' ''OK'' [Node ''TEXT'' (Some (js ''done'')) None]) = Inr st' \<and>
      canSend st' \<and>
      events st' =
        events capability_in_flight @
          [Callback 1 (Resolved (parsed ''W1'' ''OK'' [Node ''TEXT'' (Some (js ''done'')) None])
             (Some [(js ''CAPABILITY'', [])]))])"
proof -
  let ?c = "\<lparr>cid = 1, tag = ''W1'', request = \<lparr>q_command = ''CAPABILITY'', q_tag = ''W1''\<rparr>,
           payload = Some [(js ''CAPABILITY'', [])], data = Some [], precheck = False,
           ctx = None, errorResponseExpectsEmptyLine = None\<rparr>"
  let ?r = "parsed ''W1'' ''OK'' [Node ''TEXT'' (Some (js ''done'')) None]"
  have h: "currentCommand capability_in_flight = Some ?c" "r_tag ?r = Str (js (tag ?c))"
    "r_tag ?r \<noteq> Str (js ''*'')"
    by code_simp+
  have str: "\<forall>vs. r_command ?r \<noteq> Arr vs" by (simp add: parsed_def)
  have q: "clientQueue capability_in_flight = []" by code_simp
  have cb: "callback (ResponseArg ?r (attached (payload ?c))) =
      Resolved ?r (Some [(js ''CAPABILITY'', [])])" by code_simp
  from tagged_completion[OF h str, of example_compiler, unfolded cb]
  obtain st' where "handleResponse example_compiler capability_in_flight ?r = Inr st'"
    and "if clientQueue capability_in_flight = []
         then canSend st' \<and> idleTimer st' \<and>
              events st' = events capability_in_flight @
                [Callback (cid ?c) (Resolved ?r (Some [(js ''CAPABILITY'', [])]))]
         else True"
    by blast
  then have "handleResponse example_compiler capability_in_flight ?r = Inr st' \<and>
      canSend st' \<and>
      events st' = events capability_in_flight @
        [Callback 1 (Resolved ?r (Some [(js ''CAPABILITY'', [])]))]"
    by (simp only: q if_True cmd.simps)
  with h(1) show ?thesis by blast
qed


text \<open>
  The same write reaches the two properties that the router reads. With \<open>[COMMAND OK]\<close>
  the response that the server sent as NO is routed as OK and resolves the promise; with
  \<open>[TAG x]\<close> it no longer carries the tag of the command in flight and no callback is
  invoked; with \<open>[COMMAND a b]\<close> the command is an array and the router throws.
\<close>

lemma section_names_response_property:
  "(case completes ''W2 NO [COMMAND OK] failed'' of
      (None, [first, (k, Resolved R p)]) \<Rightarrow> k = 2 \<and> r_command R = Str (js ''OK'')
    | other \<Rightarrow> False) \<and>
   completes ''W2 NO [TAG x] failed'' = (None, [(1, Resolved ok_done None)]) \<and>
   completes ''W2 NO [COMMAND a b] failed'' = (Some TypeError, [(1, Resolved ok_done None)])"
  by code_simp


subsection \<open>Tags over the life of a client\<close>

text \<open>
  What happens to a client between its construction and its end: commands are queued, data
  arrives from the socket, the promise of a precheck settles, a handler is registered, the
  connection is torn down. \<open>run\<close> applies a sequence of such operations and collects the
  tags given to the queued commands, in order. When the handling of data throws, the client
  lives on in the state the exception left (\<open>after\<close>).
\<close>

datatype operation =
  Enqueue request "jstring list" options
  | Data string
  | PrecheckResolved
  | PrecheckRejected nat error_object
  | SetHandler jstring
  | TearDown

definition apply_operation ::
  "(string \<Rightarrow> response option) \<Rightarrow> (request \<Rightarrow> compilation) \<Rightarrow> client \<Rightarrow> operation \<Rightarrow>
     string option \<times> client" where
  "apply_operation parser compiler st op =
     (case op of
        Enqueue req acceptUntagged opts \<Rightarrow>
          (case enqueueCommand compiler st req acceptUntagged opts of
             (d, st') \<Rightarrow> (Some (tag d), st'))
      | Data chunk \<Rightarrow> (None, after (onData parser compiler st chunk))
      | PrecheckResolved \<Rightarrow> (None, precheckResolved compiler st)
      | PrecheckRejected k err \<Rightarrow> (None, precheckRejected st k err)
      | SetHandler name \<Rightarrow> (None, setHandler st name)
      | TearDown \<Rightarrow> (None, tearDown st))"

fun run ::
  "(string \<Rightarrow> response option) \<Rightarrow> (request \<Rightarrow> compilation) \<Rightarrow> client \<Rightarrow>
     operation list \<Rightarrow> string list \<times> client" where
  "run parser compiler st [] = ([], st)"
| "run parser compiler st (op # ops) =
     (case apply_operation parser compiler st op of
        (t, st') \<Rightarrow>
          (case run parser compiler st' ops of
             (ts, st'') \<Rightarrow> ((case t of None \<Rightarrow> [] | Some x \<Rightarrow> [x]) @ ts, st'')))"

definition tag_number :: "string \<Rightarrow> nat" where
  "tag_number t = Number (takeWhile is_digit (drop 1 t))"

definition base_tag :: "string \<Rightarrow> bool" where
  "base_tag t \<longleftrightarrow>
     t = ''W'' @ decimal (tag_number t) \<or> t = ''W'' @ decimal (tag_number t) @ ''.p''"

lemma Number_snoc: "Number (ds @ [c]) = 10 * Number ds + digit_val c"
  by (simp add: Number_def)

lemma digit_char: "n < 10 \<Longrightarrow> is_digit (char_of (48 + n)) \<and> digit_val (char_of (48 + n)) = n"
  by (simp add: is_digit_def digit_val_def)

lemma decimal_digits: "list_all is_digit (decimal n) \<and> decimal n \<noteq> []"
proof (induction n rule: decimal.induct)
  case (1 n)
  show ?case
  proof (cases "n < 10")
    case True
    then show ?thesis by (simp add: decimal.simps[of n] digit_char)
  next
    case False
    with 1 show ?thesis by (simp add: decimal.simps[of n] digit_char)
  qed
qed

lemma Number_decimal: "Number (decimal n) = n"
proof (induction n rule: decimal.induct)
  case (1 n)
  show ?case
  proof (cases "n < 10")
    case True
    then show ?thesis by (simp add: decimal.simps[of n] Number_def digit_char)
  next
    case False
    with 1 have "Number (decimal (n div 10)) = n div 10" by simp
    with False show ?thesis by (simp add: decimal.simps[of n] Number_snoc digit_char)
  qed
qed

lemma tag_number_W:
  "tag_number (''W'' @ decimal n) = n" "tag_number (''W'' @ decimal n @ ''.p'') = n"
proof -
  have d: "\<And>x. x \<in> set (decimal n) \<Longrightarrow> is_digit x"
    using decimal_digits[of n] by (simp add: list_all_iff)
  have tw: "takeWhile is_digit (decimal n) = decimal n"
    using d by (simp add: takeWhile_eq_all_conv)
  show "tag_number (''W'' @ decimal n) = n"
    by (simp add: tag_number_def tw Number_decimal)
  have "\<not> is_digit (CHR ''.'')" by (simp add: is_digit_def)
  then have tp: "takeWhile is_digit (decimal n @ ''.p'') = decimal n"
    using d by (simp add: takeWhile_append2)
  show "tag_number (''W'' @ decimal n @ ''.p'') = n"
    by (simp add: tag_number_def tp Number_decimal)
qed

lemma tagCounter_sendRequest [simp]: "tagCounter (sendRequest compiler st) = tagCounter st"
  by (simp add: sendRequest_def enterIdle_def clearIdle_def emit_def send_def Let_def
      split: list.splits compilation.splits)

lemma tagCounter_handleResponse:
  "handleResponse compiler st response = Inr st' \<Longrightarrow> tagCounter st' = tagCounter st"
  by (auto simp: handleResponse_def emit_def Let_def split: option.splits sum.splits if_splits)

lemma tagCounter_parseIncomingCommand:
  "parseIncomingCommand parser compiler st raw = x \<Longrightarrow>
     tagCounter (case x of Continue s \<Rightarrow> s | Return s \<Rightarrow> s | Throw e s \<Rightarrow> s) = tagCounter st"
  by (auto simp: parseIncomingCommand_def continuation_def clearIdle_def emit_def send_def Let_def
      dest!: tagCounter_handleResponse split: option.splits list.splits sum.splits if_splits)

lemma tagCounter_parseIncomingCommands:
  "tagCounter (after (parseIncomingCommands parser compiler st)) = tagCounter st"
proof (induction parser compiler st rule: parseIncomingCommands.induct)
  case (1 parser compiler st)
  obtain x r where it: "iterateIncomingBuffer (framing st) = (x, r)"
    by (cases "iterateIncomingBuffer (framing st)")
  show ?case
  proof (cases x)
    case None
    with it show ?thesis by (simp add: parseIncomingCommands.simps[of _ _ st] after_def)
  next
    case (Some raw)
    let ?st = "st\<lparr>framing := r\<rparr>"
    note pc = tagCounter_parseIncomingCommand[of parser compiler ?st raw, OF refl]
    show ?thesis
    proof (cases "parseIncomingCommand parser compiler ?st raw")
      case (Continue st')
      with pc have "tagCounter st' = tagCounter st" by simp
      with "1.IH"[OF it[symmetric] Some Continue] it Some Continue show ?thesis
        by (simp add: parseIncomingCommands.simps[of _ _ st])
    next
      case (Return st')
      with pc it Some show ?thesis
        by (simp add: parseIncomingCommands.simps[of _ _ st] after_def)
    next
      case (Throw e st')
      with pc it Some show ?thesis
        by (simp add: parseIncomingCommands.simps[of _ _ st] after_def)
    qed
  qed
qed

lemma tagCounter_apply_other:
  "apply_operation parser compiler st op = (None, st') \<Longrightarrow> tagCounter st' = tagCounter st"
  by (auto simp: apply_operation_def onData_def tagCounter_parseIncomingCommands
      precheckResolved_def precheckRejected_def emit_def setHandler_def tearDown_def
      split: operation.splits prod.splits option.splits)

lemma enqueue_tag:
  "enqueue st req acceptUntagged opts = (d, st') \<Longrightarrow>
     tagCounter st' = tagCounter st + 1 \<and> cid d = tagCounter st + 1 \<and>
     (tag d = ''W'' @ decimal (tagCounter st + 1) \<or>
      tag d = ''W'' @ decimal (tagCounter st + 1) @ ''.p'')"
  by (auto simp: enqueue_def Let_def split: option.splits)

lemma apply_enqueue:
  assumes "apply_operation parser compiler st op = (Some t, st')"
  shows "tagCounter st' = tagCounter st + 1 \<and> tag_number t = tagCounter st + 1 \<and> base_tag t"
proof -
  from assms obtain req acc opts d s1 where op: "op = Enqueue req acc opts"
    and e: "enqueue st req acc opts = (d, s1)" and t: "t = tag d"
    and s: "st' = (if canSend s1 then sendRequest compiler s1 else s1)"
    by (auto simp: apply_operation_def enqueueCommand_def split: operation.splits prod.splits)
  from enqueue_tag[OF e] have c: "tagCounter s1 = tagCounter st + 1"
    and f: "tag d = ''W'' @ decimal (tagCounter st + 1) \<or>
      tag d = ''W'' @ decimal (tagCounter st + 1) @ ''.p''" by simp_all
  from f have n: "tag_number (tag d) = tagCounter st + 1"
    using tag_number_W[of "tagCounter st + 1"] by auto
  with f have "base_tag (tag d)" by (simp add: base_tag_def)
  with c n s t show ?thesis by simp
qed

lemma run_tags:
  "run parser compiler st ops = (tags, st') \<Longrightarrow>
     tagCounter st \<le> tagCounter st' \<and> sorted_wrt (<) (map tag_number tags) \<and>
     list_all (\<lambda>t. tagCounter st < tag_number t \<and> tag_number t \<le> tagCounter st' \<and> base_tag t) tags"
proof (induction ops arbitrary: st tags st')
  case Nil
  then show ?case by simp
next
  case (Cons op ops)
  obtain t s1 where a: "apply_operation parser compiler st op = (t, s1)"
    by (cases "apply_operation parser compiler st op")
  obtain ts s2 where r: "run parser compiler s1 ops = (ts, s2)"
    by (cases "run parser compiler s1 ops")
  from Cons.prems a r have tags: "tags = (case t of None \<Rightarrow> [] | Some x \<Rightarrow> [x]) @ ts"
    and s2: "st' = s2" by simp_all
  note ih = Cons.IH[OF r]
  show ?case
  proof (cases t)
    case None
    with a have "tagCounter s1 = tagCounter st" by (simp add: tagCounter_apply_other)
    with ih tags s2 None show ?thesis by simp
  next
    case (Some x)
    with a have x: "tagCounter s1 = tagCounter st + 1" "tag_number x = tagCounter st + 1"
      "base_tag x" using apply_enqueue by blast+
    from ih have "\<forall>y\<in>set ts. tag_number x < tag_number y"
      using x by (auto simp: list_all_iff)
    moreover from ih x have "list_all (\<lambda>t. tagCounter st < tag_number t \<and>
        tag_number t \<le> tagCounter s2 \<and> base_tag t) ts"
      by (auto simp: list_all_iff)
    ultimately show ?thesis using ih x tags s2 Some by auto
  qed
qed

text \<open>
  Claim C9. Over any sequence of operations on a client (commands queued with or without
  priority, data arriving, prechecks settling, handlers registered, teardown), the tags
  assigned to the queued commands are pairwise different: each is \<open>W\<close> followed by the
  decimal counter value at its queueing, with \<open>.p\<close> appended on priority insertion, and the
  counter values are strictly increasing.
\<close>

theorem tags_unique:
  "distinct (fst (run parser compiler new_client ops)) \<and>
   sorted_wrt (<) (map tag_number (fst (run parser compiler new_client ops))) \<and>
   list_all base_tag (fst (run parser compiler new_client ops))"
proof -
  obtain tags st' where r: "run parser compiler new_client ops = (tags, st')"
    by (cases "run parser compiler new_client ops")
  from run_tags[OF r] have s: "sorted_wrt (<) (map tag_number tags)"
    and b: "list_all base_tag tags" by (auto simp: list_all_iff)
  from s have "distinct (map tag_number tags)"
    using strict_sorted_iff by blast
  then have "distinct tags" by (simp add: distinct_map)
  with s b r show ?thesis by simp
qed

theorem tags_unique_witness:
  "fst (run example_parser example_compiler new_client
     [Enqueue \<lparr>q_command = ''NOOP'', q_tag = []\<rparr> [] no_options,
      Enqueue \<lparr>q_command = ''LIST'', q_tag = []\<rparr> [] no_options,
      Enqueue \<lparr>q_command = ''SELECT'', q_tag = []\<rparr> [] (no_options\<lparr>o_ctx := Some 2\<rparr>)]) =
     [''W1'', ''W2'', ''W3.p''] \<and>
   distinct [''W1'', ''W2'', ''W3.p'']"
proof -
  let ?ops = "[Enqueue \<lparr>q_command = ''NOOP'', q_tag = []\<rparr> [] no_options,
      Enqueue \<lparr>q_command = ''LIST'', q_tag = []\<rparr> [] no_options,
      Enqueue \<lparr>q_command = ''SELECT'', q_tag = []\<rparr> [] (no_options\<lparr>o_ctx := Some 2\<rparr>)]"
  have e: "fst (run example_parser example_compiler new_client ?ops) = [''W1'', ''W2'', ''W3.p'']"
    by code_simp
  from tags_unique[of example_parser example_compiler ?ops] e show ?thesis
    by (simp only: e)
qed

end
